theory Spec2Isabelle
  imports Main "HOL-Library.Sublist" "HOL-Library.Multiset"
begin

section \<open>Strings as the source uses them\<close>

text \<open>
  JavaScript strings are modelled as \<open>string\<close> (a list of 8-bit code units).
  \<open>isWhiteSpace\<close> is the regular-expression class \<^verbatim>\<open>\s\<close> restricted to code
  units below 256: TAB, LF, VT, FF, CR, SPACE and NBSP.
\<close>

definition isWhiteSpace :: "char \<Rightarrow> bool" where
  "isWhiteSpace c =
     (c = CHR 0x09 \<or> c = CHR 0x0A \<or> c = CHR 0x0B \<or> c = CHR 0x0C \<or> c = CHR 0x0D
      \<or> c = CHR 0x20 \<or> c = CHR 0xA0)"

text \<open>
  \<^verbatim>\<open>s.split(/\s+/)\<close>. The language's splitting procedure walks the string from
  position \<open>p\<close>; at the first position \<open>q \<ge> p\<close> where the pattern matches it
  appends \<open>S[p..q)\<close> and restarts after the (maximal) whitespace run; at the end it
  appends the rest \<open>S[p..size)\<close>. Nothing removes empty pieces, so the empty string
  yields a list with one empty piece.
\<close>

function split_ws :: "string \<Rightarrow> string list" where
  "split_ws s =
     (case dropWhile (\<lambda>c. \<not> isWhiteSpace c) s of
        [] \<Rightarrow> [s]
      | r # rs \<Rightarrow> takeWhile (\<lambda>c. \<not> isWhiteSpace c) s # split_ws (dropWhile isWhiteSpace rs))"
  by pat_completeness auto
termination
proof (relation "measure length")
  show "wf (measure length)" by simp
next
  fix s :: string and r rs
  assume h: "dropWhile (\<lambda>c. \<not> isWhiteSpace c) s = r # rs"
  have "length (dropWhile isWhiteSpace rs) \<le> length rs"
    by (rule length_dropWhile_le)
  moreover have "length (r # rs) \<le> length s"
    using length_dropWhile_le [of "\<lambda>c. \<not> isWhiteSpace c" s] h by simp
  ultimately show "(dropWhile isWhiteSpace rs, s) \<in> measure length"
    by simp
qed

declare split_ws.simps [simp del]

text \<open>\<^verbatim>\<open>xs.join(sep)\<close>.\<close>

fun join :: "string \<Rightarrow> string list \<Rightarrow> string" where
  "join sep [] = []"
| "join sep [x] = x"
| "join sep (x # y # ys) = x @ sep @ join sep (y # ys)"

text \<open>\<^verbatim>\<open>cls.startsWith(p)\<close>.\<close>

definition startsWith :: "string \<Rightarrow> string \<Rightarrow> bool" where
  "startsWith cls p = (take (length p) cls = p)"

text \<open>\<^verbatim>\<open>text.includes(pat)\<close>: \<open>pat\<close> occurs somewhere in \<open>text\<close>.\<close>

fun includesStr :: "string \<Rightarrow> string \<Rightarrow> bool" where
  "includesStr [] pat = (pat = [])"
| "includesStr (c # cs) pat = (startsWith (c # cs) pat \<or> includesStr cs pat)"

section \<open>The classifier: \<open>separateClasses\<close>\<close>

definition mediaPrefixes :: "string list" where
  "mediaPrefixes =
     [''mobile:'', ''tablet:'', ''desktop:'', ''sm:'', ''md:'', ''lg:'', ''xl:'', ''2xl:'']"

text \<open>\<^verbatim>\<open>mediaPrefixes.find((p) => cls.startsWith(p))\<close>\<close>

definition findPrefix :: "string \<Rightarrow> string option" where
  "findPrefix cls = find (\<lambda>p. startsWith cls p) mediaPrefixes"

text \<open>
  \<open>mediaClassesMap\<close> is a plain object used as a dictionary and later enumerated with
  \<^verbatim>\<open>for (const prefix in mediaClassesMap)\<close>. None of the eight keys is an array
  index, so the enumeration order is the order in which the keys were created; the
  object is therefore an association list to which a new key is appended at the end.
  \<open>pushMedia\<close> is lines 190-193: create the bucket if the key is absent, then push.
\<close>

type_synonym mediaMap = "(string \<times> string list) list"

definition pushMedia :: "string \<Rightarrow> string \<Rightarrow> mediaMap \<Rightarrow> mediaMap" where
  "pushMedia pfx cls m =
     (case map_of m pfx of
        None \<Rightarrow> m @ [(pfx, [cls])]
      | Some _ \<Rightarrow> map (\<lambda>(k, v). if k = pfx then (k, v @ [cls]) else (k, v)) m)"

text \<open>One iteration of the loop of lines 187-197 on the pair of accumulators.\<close>

definition classifyStep :: "string list \<times> mediaMap \<Rightarrow> string \<Rightarrow> string list \<times> mediaMap" where
  "classifyStep acc cls =
     (case findPrefix cls of
        Some pfx \<Rightarrow> (fst acc, pushMedia pfx cls (snd acc))
      | None \<Rightarrow> (fst acc @ [cls], snd acc))"

definition separateClasses :: "string list \<Rightarrow> string list \<times> mediaMap" where
  "separateClasses classNames = foldl classifyStep ([], []) classNames"

section \<open>The syntax tree handed over by the parser\<close>

text \<open>
  The parser (\<^verbatim>\<open>ts.createSourceFile\<close>) is a library outside the repository; the
  code only inspects the tree it returns. The tree keeps the node kinds the code
  tests for and lumps every other kind into \<open>OtherNode\<close>, with its children in the
  order \<^verbatim>\<open>ts.forEachChild\<close> visits them. The last two fields of every node are
  \<^verbatim>\<open>getStart(sourceFile)\<close> and \<^verbatim>\<open>getEnd()\<close>. A call keeps the three lists of
  children that \<^verbatim>\<open>ts.forEachChild\<close> visits, in its order: the called expression, the
  type arguments and the arguments. The name of an attribute is an identifier (or a
  namespaced name), below which no attribute can occur, so only its span is kept.
\<close>

datatype node =
    StringLiteral string nat nat
  | JsxExpression "node option" nat nat
  | CallExpression node "node list" "node list" nat nat
  | JsxAttribute "nat \<times> nat" "node option" nat nat
  | OtherNode "node list" nat nat

fun getStart :: "node \<Rightarrow> nat" where
  "getStart (StringLiteral t s e) = s"
| "getStart (JsxExpression ex s e) = s"
| "getStart (CallExpression f targs args s e) = s"
| "getStart (JsxAttribute nm init s e) = s"
| "getStart (OtherNode cs s e) = s"

fun getEnd :: "node \<Rightarrow> nat" where
  "getEnd (StringLiteral t s e) = e"
| "getEnd (JsxExpression ex s e) = e"
| "getEnd (CallExpression f targs args s e) = e"
| "getEnd (JsxAttribute nm init s e) = e"
| "getEnd (OtherNode cs s e) = e"

text \<open>\<^verbatim>\<open>text.substring(a, b)\<close>: the arguments are swapped when \<open>a > b\<close>.\<close>

definition substring :: "string \<Rightarrow> nat \<Rightarrow> nat \<Rightarrow> string" where
  "substring text a b = take (max a b - min a b) (drop (min a b) text)"

text \<open>\<^verbatim>\<open>node.getText(sourceFile)\<close> reads the node's span out of the parsed text.\<close>

definition getText :: "string \<Rightarrow> node \<Rightarrow> string" where
  "getText sourceText n = substring sourceText (getStart n) (getEnd n)"

text \<open>
  \<open>findClassNames\<close> (lines 48-57): pre-order walk collecting every attribute named
  \<open>className\<close> that has an initializer.
\<close>

fun findClassNames :: "string \<Rightarrow> node \<Rightarrow> node list" where
  "findClassNames src (StringLiteral t s e) = []"
| "findClassNames src (JsxExpression ex s e) =
     (case ex of None \<Rightarrow> [] | Some x \<Rightarrow> findClassNames src x)"
| "findClassNames src (CallExpression f targs args s e) =
     findClassNames src f @ concat (map (findClassNames src) targs)
     @ concat (map (findClassNames src) args)"
| "findClassNames src (JsxAttribute nm init s e) =
     (case init of
        None \<Rightarrow> []
      | Some i \<Rightarrow>
          (if substring src (fst nm) (snd nm) = ''className''
           then [JsxAttribute nm init s e] else [])
          @ findClassNames src i)"
| "findClassNames src (OtherNode cs s e) = concat (map (findClassNames src) cs)"

section \<open>The rewriter: one iteration of the loop over \<open>classNameNodes\<close>\<close>

text \<open>
  Lines 89-97: the arguments of a \<open>twJoin\<close> call are split and concatenated; the first
  argument that is not a string literal stops the loop (\<open>canProcess = false\<close>),
  which is \<open>None\<close> here.
\<close>

fun collectArgs :: "node list \<Rightarrow> string list option" where
  "collectArgs [] = Some []"
| "collectArgs (StringLiteral t s e # args) =
     (case collectArgs args of None \<Rightarrow> None | Some cs \<Rightarrow> Some (split_ws t @ cs))"
| "collectArgs (arg # args) = None"

text \<open>
  Lines 64-116: the class names and the span to replace, or \<open>None\<close> where the loop
  body says \<^verbatim>\<open>continue\<close>.
\<close>

fun extractClassNames :: "string \<Rightarrow> node \<Rightarrow> (string list \<times> nat \<times> nat) option" where
  "extractClassNames src (StringLiteral t s e) = Some (split_ws t, s, e)"
| "extractClassNames src (JsxExpression (Some (StringLiteral t s' e')) s e) =
     Some (split_ws t, s, e)"
| "extractClassNames src (JsxExpression (Some (CallExpression f targs args s' e')) s e) =
     (if getText src f = ''twJoin''
      then (case collectArgs args of None \<Rightarrow> None | Some cs \<Rightarrow> Some (cs, s, e))
      else None)"
| "extractClassNames src initializer = None"

definition quoted :: "string \<Rightarrow> string" where
  "quoted s = [CHR 0x22] @ s @ [CHR 0x22]"

text \<open>Lines 127-138, with both length guards.\<close>

definition buildClassParts :: "string list \<Rightarrow> mediaMap \<Rightarrow> string list" where
  "buildClassParts baseClasses mediaClassesMap =
     (if length baseClasses > 0 then [quoted (join '' '' baseClasses)] else [])
     @ concat (map (\<lambda>(pfx, classes).
                 if length classes > 0 then [quoted (join '' '' classes)] else [])
               mediaClassesMap)"

text \<open>Lines 140-142: the template literal, with its line breaks and indentation.\<close>

definition newClassName :: "string list \<Rightarrow> string" where
  "newClassName classParts =
     ''{twJoin('' @ [CHR 0x0A] @ ''        ''
     @ join ('','' @ [CHR 0x0A] @ ''        '') classParts
     @ [CHR 0x0A] @ ''      )}''"

text \<open>
  An edit addresses the document by offsets (\<^verbatim>\<open>document.positionAt\<close> turns an
  offset into the host's position, and \<^verbatim>\<open>Position(0, 0)\<close> is offset 0). All edits
  are for the one document URI.
\<close>

datatype edit = Replace nat nat string | Insert nat string

definition rewriteNode :: "string \<Rightarrow> nat \<Rightarrow> node \<Rightarrow> edit option" where
  "rewriteNode src offset classNameNode =
     (case classNameNode of
        JsxAttribute nm (Some initializer) s e \<Rightarrow>
          (case extractClassNames src initializer of
             None \<Rightarrow> None
           | Some (classNames, start, endOff) \<Rightarrow>
               (case separateClasses classNames of
                  (baseClasses, mediaClassesMap) \<Rightarrow>
                    if length mediaClassesMap = 0 then None
                    else Some (Replace (start + offset) (endOff + offset)
                                 (newClassName (buildClassParts baseClasses mediaClassesMap)))))
      | _ \<Rightarrow> None)"

section \<open>The edit collector and the command\<close>

definition importStatement :: string where
  "importStatement = ''import { twJoin } from '' @ quoted ''tailwind-merge'' @ '';''"

definition ensureImportStatement :: "string \<Rightarrow> edit list \<Rightarrow> edit list" where
  "ensureImportStatement text workspaceEdit =
     (if \<not> includesStr text importStatement
      then workspaceEdit @ [Insert 0 (importStatement @ [CHR 0x0A])]
      else workspaceEdit)"

text \<open>
  The active editor: the document's text and the selection as a pair of offsets
  (\<^verbatim>\<open>document.offsetAt(selection.start)\<close>, \<^verbatim>\<open>document.offsetAt(selection.end)\<close>);
  the selection is empty when the two coincide.
\<close>

record editor =
  docText :: string
  selStart :: nat
  selEnd :: nat

text \<open>
  What the command does to the host: the batches passed to
  \<^verbatim>\<open>vscode.workspace.applyEdit\<close> and the messages passed to
  \<^verbatim>\<open>vscode.window.showErrorMessage\<close>, in call order.
\<close>

record effects =
  applied :: "edit list list"
  shown :: "string list"

text \<open>Lines 24-36: the text to parse and the offset of its first character.\<close>

definition selectSource :: "editor \<Rightarrow> string \<times> nat" where
  "selectSource ed =
     (if selStart ed \<noteq> selEnd ed
      then (substring (docText ed) (selStart ed) (selEnd ed), selStart ed)
      else (docText ed, 0))"

text \<open>Lines 46-159, once the tree is there: collect, rewrite, add the import.\<close>

definition collectEdits :: "string \<Rightarrow> string \<Rightarrow> nat \<Rightarrow> node \<Rightarrow> edit list" where
  "collectEdits text sourceText offset sourceFile =
     (let classNameNodes = findClassNames sourceText sourceFile;
          workspaceEdit = List.map_filter (rewriteNode sourceText offset) classNameNodes
      in if length workspaceEdit > 0 then ensureImportStatement text workspaceEdit
         else workspaceEdit)"

text \<open>
  \<open>extractTailwindClasses\<close> (lines 13-167). The parser is a parameter; \<open>Inl message\<close>
  is an exception thrown inside the \<^verbatim>\<open>try\<close> block, carrying \<^verbatim>\<open>error.message\<close>.
\<close>

definition extractTailwindClasses ::
  "(string \<Rightarrow> string + node) \<Rightarrow> editor option \<Rightarrow> effects" where
  "extractTailwindClasses createSourceFile activeTextEditor =
     (case activeTextEditor of
        None \<Rightarrow> \<lparr>applied = [], shown = []\<rparr>
      | Some ed \<Rightarrow>
          (case selectSource ed of
             (sourceText, offset) \<Rightarrow>
               (case createSourceFile sourceText of
                  Inl message \<Rightarrow>
                    \<lparr>applied = [],
                     shown = [''An error occurred while extracting Tailwind classes: '' @ message]\<rparr>
                | Inr sourceFile \<Rightarrow>
                    \<lparr>applied = [collectEdits (docText ed) sourceText offset sourceFile],
                     shown = []\<rparr>)))"

section \<open>Span discipline of a parse tree, and the host's edit application\<close>




text \<open>
  The host applies a batch atomically, every edit addressing the text as it was before
  the batch (\<^verbatim>\<open>vscode.workspace.applyEdit\<close>, outside the repository): the edits are
  carried out from the highest offset down, so that earlier offsets stay valid.
\<close>

fun editStart :: "edit \<Rightarrow> nat" where
  "editStart (Replace a b t) = a"
| "editStart (Insert p t) = p"


fun applyOne :: "edit \<Rightarrow> string \<Rightarrow> string" where
  "applyOne (Replace a b t) text = take a text @ t @ drop b text"
| "applyOne (Insert p t) text = take p text @ t @ drop p text"

definition applyEdit :: "string \<Rightarrow> edit list \<Rightarrow> string" where
  "applyEdit text edits = foldr applyOne (sort_key editStart edits) text"

section \<open>Example documents and the trees the parser builds for them\<close>

text \<open>
  \<open>page1\<close> is a one-line document with a bare string literal as class attribute. Its tree
  is: source file, expression statement, self-closing element, with the tag name and the
  attribute list as children.
\<close>

definition page1 :: string where
  "page1 = ''<div className=\"mobile:hidden desktop:flex\" />''"

definition page1Tree :: node where
  "page1Tree =
     OtherNode [OtherNode [OtherNode
       [OtherNode [] 1 4,
        OtherNode
          [JsxAttribute (5, 14) (Some (StringLiteral ''mobile:hidden desktop:flex'' 15 43)) 5 43]
          5 43]
       0 46] 0 46] 0 46"

text \<open>
  \<open>page2\<close> is \<open>page1\<close> after one run of the command: the import line on top and the
  attribute value replaced by the \<open>twJoin\<close> call.
\<close>

definition page2 :: string where
  "page2 =
     ''import { twJoin } from \"tailwind-merge\";'' @ [CHR 0x0A]
     @ ''<div className={twJoin('' @ [CHR 0x0A]
     @ ''        \"mobile:hidden\",'' @ [CHR 0x0A]
     @ ''        \"desktop:flex\"'' @ [CHR 0x0A]
     @ ''      )} />''"

definition page2Tree :: node where
  "page2Tree =
     OtherNode
       [OtherNode [OtherNode [] 7 17, StringLiteral ''tailwind-merge'' 23 39] 0 40,
        OtherNode [OtherNode
          [OtherNode [] 42 45,
           OtherNode
             [JsxAttribute (46, 55)
                (Some (JsxExpression
                   (Some (CallExpression (OtherNode [] 57 63) []
                            [StringLiteral ''mobile:hidden'' 73 88,
                             StringLiteral ''desktop:flex'' 98 112]
                            57 120))
                   56 121))
                46 121]
             46 121]
          41 124] 41 124]
       0 124"

definition pageParser :: "string \<Rightarrow> string + node" where
  "pageParser sourceText =
     (if sourceText = page1 then Inr page1Tree
      else if sourceText = page2 then Inr page2Tree
      else Inl ''unexpected input'')"

text \<open>
  \<open>page3\<close> has a statement before the markup; the selection of \<open>page3Editor\<close> covers the
  markup only, from offset 13 to the end, and \<open>selection3Tree\<close> is the tree of the
  selected text.
\<close>

definition page3 :: string where
  "page3 = ''const a = 1;'' @ [CHR 0x0A] @ ''<div className=\"p-4 sm:p-8\" />''"

definition page3Editor :: editor where
  "page3Editor = \<lparr>docText = page3, selStart = 13, selEnd = 43\<rparr>"

definition selection3Tree :: node where
  "selection3Tree =
     OtherNode [OtherNode [OtherNode
       [OtherNode [] 1 4,
        OtherNode [JsxAttribute (5, 14) (Some (StringLiteral ''p-4 sm:p-8'' 15 27)) 5 27] 5 27]
       0 30] 0 30] 0 30"

text \<open>\<open>page4\<close> nests one element with a class attribute inside another.\<close>

definition page4 :: string where
  "page4 = ''<a className=\"sm:x\"><b className=\"md:y\" /></a>''"

definition page4Tree :: node where
  "page4Tree =
     OtherNode [OtherNode [OtherNode
       [OtherNode
          [OtherNode [] 1 2,
           OtherNode [JsxAttribute (3, 12) (Some (StringLiteral ''sm:x'' 13 19)) 3 19] 3 19]
          0 20,
        OtherNode
          [OtherNode [] 21 22,
           OtherNode [JsxAttribute (23, 32) (Some (StringLiteral ''md:y'' 33 39)) 23 39] 23 39]
          20 42,
        OtherNode [OtherNode [] 44 45] 42 46]
       0 46] 0 46] 0 46"

section \<open>Exceptions inside the \<open>try\<close> block\<close>

text \<open>
  The body of the command runs inside one \<^verbatim>\<open>try\<close> block (lines 19-166), and the batch
  is a local object until the last statement hands it to the host. To speak of an
  exception during rewriting, the calls into the surroundings that the body makes are
  taken as operations that may throw: the parser, and \<^verbatim>\<open>document.positionAt\<close>, which
  the loop calls twice for every node it rewrites (lines 148-151). \<open>Inl message\<close> is a
  thrown exception with its \<^verbatim>\<open>error.message\<close>.
\<close>

record host =
  parseSource :: "string \<Rightarrow> string + node"
  positionAt :: "nat \<Rightarrow> string + nat"

text \<open>
  One iteration of the loop (lines 64-153) with these operations: the replacement text
  is built first, then the start position is asked for, then the end position.
\<close>

definition rewriteNodeOn :: "host \<Rightarrow> string \<Rightarrow> nat \<Rightarrow> node \<Rightarrow> string + edit option" where
  "rewriteNodeOn h src offset classNameNode =
     (case classNameNode of
        JsxAttribute nm (Some initializer) s e \<Rightarrow>
          (case extractClassNames src initializer of
             None \<Rightarrow> Inr None
           | Some (classNames, start, endOff) \<Rightarrow>
               (case separateClasses classNames of
                  (baseClasses, mediaClassesMap) \<Rightarrow>
                    if length mediaClassesMap = 0 then Inr None
                    else
                      (case positionAt h (start + offset) of
                         Inl message \<Rightarrow> Inl message
                       | Inr startPosition \<Rightarrow>
                           (case positionAt h (endOff + offset) of
                              Inl message \<Rightarrow> Inl message
                            | Inr endPosition \<Rightarrow>
                                Inr (Some (Replace startPosition endPosition
                                  (newClassName
                                     (buildClassParts baseClasses mediaClassesMap))))))))
      | _ \<Rightarrow> Inr None)"

text \<open>
  The loop over \<open>classNameNodes\<close> (line 63) with its accumulator \<open>workspaceEdit\<close>: an
  exception leaves the loop at once, and the edits collected so far go with it.
\<close>

fun rewriteAll :: "host \<Rightarrow> string \<Rightarrow> nat \<Rightarrow> node list \<Rightarrow> edit list \<Rightarrow> string + edit list" where
  "rewriteAll h src offset [] workspaceEdit = Inr workspaceEdit"
| "rewriteAll h src offset (classNameNode # rest) workspaceEdit =
     (case rewriteNodeOn h src offset classNameNode of
        Inl message \<Rightarrow> Inl message
      | Inr None \<Rightarrow> rewriteAll h src offset rest workspaceEdit
      | Inr (Some ed) \<Rightarrow> rewriteAll h src offset rest (workspaceEdit @ [ed]))"

text \<open>
  The command over such a host: whatever is thrown inside the \<^verbatim>\<open>try\<close> block reaches
  the \<^verbatim>\<open>catch\<close> clause (lines 162-166), which shows one message.
\<close>

definition extractTailwindClassesOn :: "host \<Rightarrow> editor option \<Rightarrow> effects" where
  "extractTailwindClassesOn h activeTextEditor =
     (case activeTextEditor of
        None \<Rightarrow> \<lparr>applied = [], shown = []\<rparr>
      | Some ed \<Rightarrow>
          (case selectSource ed of
             (sourceText, offset) \<Rightarrow>
               (case parseSource h sourceText of
                  Inl message \<Rightarrow>
                    \<lparr>applied = [],
                     shown = [''An error occurred while extracting Tailwind classes: '' @ message]\<rparr>
                | Inr sourceFile \<Rightarrow>
                    (case rewriteAll h sourceText offset
                            (findClassNames sourceText sourceFile) [] of
                       Inl message \<Rightarrow>
                         \<lparr>applied = [],
                          shown = [''An error occurred while extracting Tailwind classes: ''
                                   @ message]\<rparr>
                     | Inr workspaceEdit \<Rightarrow>
                         \<lparr>applied =
                            [if length workspaceEdit > 0
                             then ensureImportStatement (docText ed) workspaceEdit
                             else workspaceEdit],
                          shown = []\<rparr>))))"

section \<open>How the emitted text reads back as source\<close>

text \<open>
  A second run sees the text of the first run through the parser. What the parser does
  with a text of the emitted form is written out here, for the part of the language the
  emitted form needs. A string literal without escapes runs from a double quote to the
  next double quote, and its text is what stands between them; \<open>readLiteral\<close> gives that
  text and what follows the literal. It gives nothing when a backslash or a line break
  comes before the closing quote: the parser would then process an escape or report an
  unterminated literal, and the text of the literal would not be the characters between
  the quotes.
\<close>

definition readLiteral :: "string \<Rightarrow> (string \<times> string) option" where
  "readLiteral s =
     (case s of
        [] \<Rightarrow> None
      | c # r \<Rightarrow>
          if c \<noteq> CHR 0x22 then None
          else
            (case dropWhile (\<lambda>d. d \<noteq> CHR 0x22) r of
               [] \<Rightarrow> None
             | q # rest \<Rightarrow>
                 if CHR 0x5C \<in> set (takeWhile (\<lambda>d. d \<noteq> CHR 0x22) r)
                    \<or> CHR 0x0A \<in> set (takeWhile (\<lambda>d. d \<noteq> CHR 0x22) r)
                    \<or> CHR 0x0D \<in> set (takeWhile (\<lambda>d. d \<noteq> CHR 0x22) r)
                 then None
                 else Some (takeWhile (\<lambda>d. d \<noteq> CHR 0x22) r, rest)))"

text \<open>
  The argument list of a call after its opening parenthesis: string literals separated
  by commas, with white space between the tokens, up to the closing parenthesis. The
  first argument \<open>n\<close> is the length of the whole source text, so that a position is \<open>n\<close>
  minus the length of what is still to be read. The result is the argument nodes and the
  text after the closing parenthesis.
\<close>

function readArguments :: "nat \<Rightarrow> string \<Rightarrow> (node list \<times> string) option" where
  "readArguments n s =
     (case dropWhile isWhiteSpace s of
        [] \<Rightarrow> None
      | c # r \<Rightarrow>
          if c = CHR '')'' then Some ([], r)
          else
            (case readLiteral (c # r) of
               None \<Rightarrow> None
             | Some (body, rest) \<Rightarrow>
                 (case dropWhile isWhiteSpace rest of
                    [] \<Rightarrow> None
                  | d # u \<Rightarrow>
                      if d = CHR '','' then
                        (case readArguments n u of
                           None \<Rightarrow> None
                         | Some (args, fin) \<Rightarrow>
                             Some (StringLiteral body (n - length (c # r)) (n - length rest) # args,
                                   fin))
                      else if d = CHR '')'' then
                        Some ([StringLiteral body (n - length (c # r)) (n - length rest)], u)
                      else None)))"
  by pat_completeness auto
termination
proof (relation "measure (\<lambda>(n, s). length s)")
  show "wf (measure (\<lambda>(n, s). length s))" by simp
next
  fix n :: nat and s :: string and c r x body rest d u
  assume 1: "dropWhile isWhiteSpace s = c # r"
     and 2: "readLiteral (c # r) = Some x"
     and 3: "(body, rest) = x"
     and 4: "dropWhile isWhiteSpace rest = d # u"
  have a: "length (c # r) \<le> length s"
    using length_dropWhile_le [of isWhiteSpace s] 1 by simp
  have "rest = tl (dropWhile (\<lambda>d. d \<noteq> CHR 0x22) r)"
    using 2 3 by (auto simp: readLiteral_def split: if_splits list.splits)
  then have b: "length rest \<le> length r"
    using length_dropWhile_le [of "\<lambda>d. d \<noteq> CHR 0x22" r] by simp
  have c: "length (d # u) \<le> length rest"
    using length_dropWhile_le [of isWhiteSpace rest] 4 by simp
  from a b c show "((n, u), (n, s)) \<in> measure (\<lambda>(n, s). length s)"
    by simp
qed

declare readArguments.simps [simp del]

text \<open>
  An attribute value at offset \<open>p\<close> of the source text that is a braced call of
  \<open>twJoin\<close> with string-literal arguments and no type arguments, as a tree: the braced
  expression spans from the opening to the closing brace, the call from the name to the
  closing parenthesis, the called expression is the name, and every argument spans its
  literal with the quotes.
\<close>

definition readValue :: "string \<Rightarrow> nat \<Rightarrow> node option" where
  "readValue src p =
     (case drop p src of
        [] \<Rightarrow> None
      | c # r \<Rightarrow>
          if c \<noteq> CHR ''{'' \<or> take 6 (dropWhile isWhiteSpace r) \<noteq> ''twJoin'' then None
          else
            (case dropWhile isWhiteSpace (drop 6 (dropWhile isWhiteSpace r)) of
               [] \<Rightarrow> None
             | d # r3 \<Rightarrow>
                 if d \<noteq> CHR ''('' then None
                 else
                   (case readArguments (length src) r3 of
                      None \<Rightarrow> None
                    | Some (args, r4) \<Rightarrow>
                        (case dropWhile isWhiteSpace r4 of
                           [] \<Rightarrow> None
                         | e # r5 \<Rightarrow>
                             if e \<noteq> CHR ''}'' then None
                             else
                               Some (JsxExpression
                                 (Some (CallExpression
                                    (OtherNode []
                                       (length src - length (dropWhile isWhiteSpace r))
                                       (length src - length (drop 6 (dropWhile isWhiteSpace r))))
                                    [] args
                                    (length src - length (dropWhile isWhiteSpace r))
                                    (length src - length r4)))
                                 p (length src - length r5))))))"

text \<open>
  A token that the emitted text carries unchanged through a string literal: not empty,
  and free of white space, double quotes and backslashes.
\<close>

definition plainToken :: "string \<Rightarrow> bool" where
  "plainToken c =
     (c \<noteq> [] \<and> list_all (\<lambda>x. \<not> isWhiteSpace x \<and> x \<noteq> CHR 0x22 \<and> x \<noteq> CHR 0x5C) c)"

text \<open>
  \<open>ownOutput src n\<close>: the candidate \<open>n\<close> is the rewriter's output for some list of such
  tokens. Its value stands in the text as the rewriter emits it for that list, and the
  tree has there what that text reads back as.
\<close>

definition ownOutput :: "string \<Rightarrow> node \<Rightarrow> bool" where
  "ownOutput src n =
     (\<exists>nm i s e cs.
        n = JsxAttribute nm (Some i) s e
      \<and> list_all plainToken cs
      \<and> snd (separateClasses cs) \<noteq> []
      \<and> take (length (newClassName (buildClassParts (fst (separateClasses cs))
                                                      (snd (separateClasses cs)))))
             (drop (getStart i) src)
          = newClassName (buildClassParts (fst (separateClasses cs)) (snd (separateClasses cs)))
      \<and> readValue src (getStart i) = Some i)"

section \<open>Candidates inside type arguments\<close>


section \<open>Two more example documents\<close>





section \<open>Properties of the classifier\<close>

lemma separateClasses_snoc:
  "separateClasses (cs @ [c]) = classifyStep (separateClasses cs) c"
  by (simp add: separateClasses_def)

lemma map_filter_snoc:
  "List.map_filter f (xs @ [x]) = List.map_filter f xs @ (case f x of None \<Rightarrow> [] | Some y \<Rightarrow> [y])"
  by (simp add: List.map_filter_def split: option.splits)

lemma separateClasses_fst:
  "fst (separateClasses cs) = filter (\<lambda>c. findPrefix c = None) cs"
proof (induction cs rule: rev_induct)
  case Nil
  show ?case by (simp add: separateClasses_def)
next
  case (snoc c cs)
  then show ?case
    by (simp add: separateClasses_snoc classifyStep_def split: option.splits)
qed

lemma map_of_buckets:
  "map_of (map (\<lambda>p. (p, g p)) ks) p = (if p \<in> set ks then Some (g p) else None)"
  by (induction ks) auto

lemma mem_map_filter:
  "p \<in> set (List.map_filter f xs) \<longleftrightarrow> (\<exists>x \<in> set xs. f x = Some p)"
  by (induction xs) (auto simp: List.map_filter_simps split: option.splits)

lemma separateClasses_snd:
  "snd (separateClasses cs) =
     map (\<lambda>p. (p, filter (\<lambda>c. findPrefix c = Some p) cs))
         (rev (remdups (rev (List.map_filter findPrefix cs))))"
proof (induction cs rule: rev_induct)
  case Nil
  show ?case by (simp add: separateClasses_def List.map_filter_def)
next
  case (snoc c cs)
  let ?ks = "rev (remdups (rev (List.map_filter findPrefix cs)))"
  show ?case
  proof (cases "findPrefix c")
    case None
    then show ?thesis
      using snoc by (simp add: separateClasses_snoc classifyStep_def map_filter_snoc)
  next
    case (Some p)
    show ?thesis
    proof (cases "p \<in> set (List.map_filter findPrefix cs)")
      case True
      then have "map_of (snd (separateClasses cs)) p \<noteq> None"
        using snoc by (simp add: map_of_buckets)
      then show ?thesis
        using snoc Some True
        by (auto simp: separateClasses_snoc classifyStep_def map_filter_snoc pushMedia_def)
    next
      case False
      then have "map_of (snd (separateClasses cs)) p = None"
        using snoc by (simp add: map_of_buckets)
      moreover have "filter (\<lambda>c. findPrefix c = Some p) cs = []"
        using False by (auto simp: mem_map_filter filter_empty_conv)
      moreover have "\<And>q. q \<in> set ?ks \<Longrightarrow> q \<noteq> p"
        using False by auto
      ultimately show ?thesis
        using snoc Some False
        by (auto simp: separateClasses_snoc classifyStep_def map_filter_snoc pushMedia_def)
    qed
  qed
qed

lemma separateClasses_keys:
  "map fst (snd (separateClasses cs)) = rev (remdups (rev (List.map_filter findPrefix cs)))"
  by (simp add: separateClasses_snd comp_def)

lemma separateClasses_keys_distinct: "distinct (map fst (snd (separateClasses cs)))"
  by (simp add: separateClasses_keys)

lemma separateClasses_bucket:
  "(p, ts) \<in> set (snd (separateClasses cs)) \<Longrightarrow>
     ts = filter (\<lambda>c. findPrefix c = Some p) cs \<and> (\<exists>c \<in> set cs. findPrefix c = Some p)"
  by (auto simp: separateClasses_snd mem_map_filter)

lemma separateClasses_bucket_nonempty:
  "(p, ts) \<in> set (snd (separateClasses cs)) \<Longrightarrow> ts \<noteq> []"
  by (auto dest!: separateClasses_bucket simp: filter_empty_conv)

lemma mset_buckets:
  "distinct ks \<Longrightarrow>
     mset (concat (map (\<lambda>p. filter (\<lambda>c. f c = Some p) cs) ks))
       = filter_mset (\<lambda>c. \<exists>p \<in> set ks. f c = Some p) (mset cs)"
proof (induction ks)
  case Nil
  show ?case by simp
next
  case (Cons k ks)
  have "filter_mset (\<lambda>c. f c = Some k) (mset cs)
          + filter_mset (\<lambda>c. \<exists>p \<in> set ks. f c = Some p) (mset cs)
        = filter_mset (\<lambda>c. \<exists>p \<in> set (k # ks). f c = Some p) (mset cs)"
    using Cons.prems by (auto intro!: multiset_eqI)
  with Cons show ?case by simp
qed

lemma separateClasses_mset:
  "mset (fst (separateClasses cs) @ concat (map snd (snd (separateClasses cs)))) = mset cs"
proof -
  let ?ks = "rev (remdups (rev (List.map_filter findPrefix cs)))"
  have "mset (concat (map snd (snd (separateClasses cs))))
          = filter_mset (\<lambda>c. \<exists>p \<in> set ?ks. findPrefix c = Some p) (mset cs)"
    using mset_buckets [of ?ks findPrefix cs] by (simp add: separateClasses_snd comp_def)
  also have "\<dots> = filter_mset (\<lambda>c. findPrefix c \<noteq> None) (mset cs)"
    by (rule filter_mset_cong) (auto simp: mem_map_filter)
  finally show ?thesis
    by (simp add: separateClasses_fst)
qed

lemma filter_subseq: "subseq (filter P xs) xs"
  by (induction xs) auto

lemma buildClassParts_buckets:
  assumes "separateClasses cs = (base, m)"
  shows "buildClassParts base m =
           (if base = [] then [] else [quoted (join '' '' base)])
           @ map (\<lambda>(p, ts). quoted (join '' '' ts)) m"
proof -
  have ne: "\<And>p ts. (p, ts) \<in> set m \<Longrightarrow> ts \<noteq> []"
    using separateClasses_bucket_nonempty [of _ _ cs] assms by simp
  have "concat (map (\<lambda>(pfx, classes).
            if length classes > 0 then [quoted (join '' '' classes)] else []) m)
        = concat (map (\<lambda>(p, ts). [quoted (join '' '' ts)]) m)"
    by (rule arg_cong [where f = concat], rule map_cong) (auto dest: ne)
  also have "\<dots> = map (\<lambda>(p, ts). quoted (join '' '' ts)) m"
    by (induction m) auto
  finally show ?thesis
    by (simp add: buildClassParts_def)
qed

text \<open>
  Claim C2. For every token list the classifier's output is a complete, disjoint,
  order-preserving partition of the input: the base list followed by all buckets has
  the same elements with the same multiplicities as the input; the base list and every
  bucket are subsequences of the input; the keys are pairwise different; and every
  input token lies either in the base list and in no bucket, or in exactly one bucket
  and not in the base list.
\<close>

theorem separateClasses_partition:
  assumes "separateClasses cs = (base, m)"
  shows "mset (base @ concat (map snd m)) = mset cs
       \<and> subseq base cs
       \<and> (\<forall>(p, ts) \<in> set m. subseq ts cs)
       \<and> distinct (map fst m)
       \<and> (\<forall>c \<in> set cs.
             (c \<in> set base \<and> (\<forall>(p, ts) \<in> set m. c \<notin> set ts))
           \<or> (c \<notin> set base \<and> (\<exists>!p. \<exists>ts. (p, ts) \<in> set m \<and> c \<in> set ts)))"
proof -
  have b: "base = filter (\<lambda>c. findPrefix c = None) cs"
    using separateClasses_fst [of cs] assms by simp
  have m: "m = snd (separateClasses cs)"
    using assms by simp
  have bucket: "\<And>p ts. (p, ts) \<in> set m \<Longrightarrow> ts = filter (\<lambda>c. findPrefix c = Some p) cs"
    using separateClasses_bucket [of _ _ cs] m by simp
  have keys: "set (map fst m) = {p. \<exists>c \<in> set cs. findPrefix c = Some p}"
    unfolding m separateClasses_keys by (auto simp: mem_map_filter)
  have 1: "mset (base @ concat (map snd m)) = mset cs"
    using separateClasses_mset [of cs] assms by simp
  have 2: "subseq base cs"
    unfolding b by (rule filter_subseq)
  have 3: "\<forall>(p, ts) \<in> set m. subseq ts cs"
    using bucket filter_subseq by fastforce
  have 4: "distinct (map fst m)"
    unfolding m by (rule separateClasses_keys_distinct)
  have 5: "(c \<in> set base \<and> (\<forall>(p, ts) \<in> set m. c \<notin> set ts))
           \<or> (c \<notin> set base \<and> (\<exists>!p. \<exists>ts. (p, ts) \<in> set m \<and> c \<in> set ts))"
    if c: "c \<in> set cs" for c
  proof (cases "findPrefix c")
    case None
    then have "c \<in> set base" using c b by simp
    moreover have "c \<notin> set ts" if "(p, ts) \<in> set m" for p ts
      using bucket [OF that] None by auto
    ultimately show ?thesis by auto
  next
    case (Some q)
    then have nb: "c \<notin> set base" using b by simp
    from Some c have "q \<in> set (map fst m)" unfolding keys by auto
    then obtain ts where qm: "(q, ts) \<in> set m" by auto
    have cq: "c \<in> set ts" using bucket [OF qm] Some c by simp
    have "p = q" if "(p, ts') \<in> set m" "c \<in> set ts'" for p ts'
      using bucket [OF that(1)] that(2) Some by auto
    with qm cq have "\<exists>!p. \<exists>ts. (p, ts) \<in> set m \<and> c \<in> set ts" by blast
    with nb show ?thesis by simp
  qed
  from 1 2 3 4 5 show ?thesis by blast
qed

theorem separateClasses_partition_witness:
  "separateClasses [''p-4'', ''sm:p-8'', ''text-center'']
     = ([''p-4'', ''text-center''], [(''sm:'', [''sm:p-8''])])
   \<and> mset ([''p-4'', ''text-center''] @ concat (map snd [(''sm:'', [''sm:p-8''])]))
       = mset [''p-4'', ''sm:p-8'', ''text-center'']
   \<and> subseq [''p-4'', ''text-center''] [''p-4'', ''sm:p-8'', ''text-center'']"
proof -
  have h: "separateClasses [''p-4'', ''sm:p-8'', ''text-center'']
             = ([''p-4'', ''text-center''], [(''sm:'', [''sm:p-8''])])"
    by code_simp
  show ?thesis
    using h separateClasses_partition [OF h] by blast
qed

lemma firstIdx_old:
  assumes "\<exists>x \<in> set cs. f x = Some p"
  shows "length (takeWhile (\<lambda>x. f x \<noteq> Some p) (cs @ [c])) = length (takeWhile (\<lambda>x. f x \<noteq> Some p) cs)
       \<and> length (takeWhile (\<lambda>x. f x \<noteq> Some p) cs) < length cs"
proof -
  from assms obtain x where "x \<in> set cs" "\<not> f x \<noteq> Some p" by auto
  then have "takeWhile (\<lambda>x. f x \<noteq> Some p) (cs @ [c]) = takeWhile (\<lambda>x. f x \<noteq> Some p) cs"
    by (rule takeWhile_append1)
  moreover have "length (takeWhile (\<lambda>x. f x \<noteq> Some p) cs) < length cs"
    using \<open>x \<in> set cs\<close> \<open>\<not> f x \<noteq> Some p\<close>
    by (induction cs) auto
  ultimately show ?thesis by simp
qed

lemma firstIdx_new:
  assumes "\<not> (\<exists>x \<in> set cs. f x = Some p)" "f c = Some p"
  shows "length (takeWhile (\<lambda>x. f x \<noteq> Some p) (cs @ [c])) = length cs"
proof -
  have "takeWhile (\<lambda>x. f x \<noteq> Some p) (cs @ [c]) = cs @ takeWhile (\<lambda>x. f x \<noteq> Some p) [c]"
    using assms(1) by (intro takeWhile_append2) auto
  then show ?thesis using assms(2) by simp
qed

lemma separateClasses_first_members:
  "sorted_wrt (<) (map (\<lambda>p. length (takeWhile (\<lambda>c. findPrefix c \<noteq> Some p) cs))
                      (map fst (snd (separateClasses cs))))"
proof (induction cs rule: rev_induct)
  case Nil
  show ?case by (simp add: separateClasses_def)
next
  case (snoc c cs)
  let ?ks = "rev (remdups (rev (List.map_filter findPrefix cs)))"
  let ?idx = "\<lambda>xs p. length (takeWhile (\<lambda>c. findPrefix c \<noteq> Some p) xs)"
  have ih: "sorted_wrt (<) (map (?idx cs) ?ks)"
    using snoc unfolding separateClasses_keys .
  have old: "map (?idx (cs @ [c])) ?ks = map (?idx cs) ?ks"
    by (rule map_cong) (auto simp: mem_map_filter firstIdx_old)
  have below: "\<And>q. q \<in> set ?ks \<Longrightarrow> ?idx cs q < length cs"
    by (auto simp: mem_map_filter firstIdx_old)
  have goal: "sorted_wrt (<) (map (?idx (cs @ [c]))
                 (rev (remdups (rev (List.map_filter findPrefix (cs @ [c]))))))"
  proof (cases "findPrefix c")
    case None
    then have "rev (remdups (rev (List.map_filter findPrefix (cs @ [c])))) = ?ks"
      by (simp add: map_filter_snoc)
    then show ?thesis using ih by (simp only: old)
  next
    case (Some p)
    show ?thesis
    proof (cases "p \<in> set (List.map_filter findPrefix cs)")
      case True
      then have "rev (remdups (rev (List.map_filter findPrefix (cs @ [c])))) = ?ks"
        using Some by (simp add: map_filter_snoc)
      then show ?thesis using ih by (simp only: old)
    next
      case False
      then have ks: "rev (remdups (rev (List.map_filter findPrefix (cs @ [c])))) = ?ks @ [p]"
        using Some by (simp add: map_filter_snoc)
      have new: "?idx (cs @ [c]) p = length cs"
        using Some False by (intro firstIdx_new) (auto simp: mem_map_filter)
      have "map (?idx (cs @ [c])) (?ks @ [p]) = map (?idx cs) ?ks @ [length cs]"
        using old new by simp
      moreover have "sorted_wrt (<) (map (?idx cs) ?ks @ [length cs])"
        using ih below by (simp add: sorted_wrt_append)
      ultimately show ?thesis by (simp only: ks)
    qed
  qed
  then show ?case unfolding separateClasses_keys .
qed

text \<open>
  Claim C4. The prefix buckets appear in the mapping in the order in which each prefix's
  first member was met in the token sequence: along the keys of the mapping, the index
  of the first token carrying that prefix strictly increases; the keys are exactly the
  prefixes that occur; each bucket holds the tokens of its prefix; and the rewrite loop,
  run on the base list and the mapping of the classifier, emits after the base group
  (if there is one) one group per key in that same order, each between double quotes.
\<close>

theorem bucket_order:
  "sorted_wrt (<) (map (\<lambda>p. length (takeWhile (\<lambda>c. findPrefix c \<noteq> Some p) cs))
                      (map fst (snd (separateClasses cs))))
   \<and> set (map fst (snd (separateClasses cs))) = set (List.map_filter findPrefix cs)
   \<and> snd (separateClasses cs)
       = map (\<lambda>p. (p, filter (\<lambda>c. findPrefix c = Some p) cs)) (map fst (snd (separateClasses cs)))
   \<and> buildClassParts (fst (separateClasses cs)) (snd (separateClasses cs))
       = (if fst (separateClasses cs) = [] then []
          else [[CHR 0x22] @ join '' '' (fst (separateClasses cs)) @ [CHR 0x22]])
         @ map (\<lambda>p. [CHR 0x22] @ join '' '' (filter (\<lambda>c. findPrefix c = Some p) cs) @ [CHR 0x22])
             (map fst (snd (separateClasses cs)))"
proof -
  let ?ks = "rev (remdups (rev (List.map_filter findPrefix cs)))"
  let ?base = "fst (separateClasses cs)"
  have k: "map fst (snd (separateClasses cs)) = ?ks"
    by (rule separateClasses_keys)
  have 1: "snd (separateClasses cs) = map (\<lambda>p. (p, filter (\<lambda>c. findPrefix c = Some p) cs)) ?ks"
    by (rule separateClasses_snd)
  have "buildClassParts ?base (snd (separateClasses cs))
          = (if ?base = [] then [] else [quoted (join '' '' ?base)])
            @ map (\<lambda>(p, ts). quoted (join '' '' ts)) (snd (separateClasses cs))"
    by (rule buildClassParts_buckets) simp
  also have "map (\<lambda>(p, ts). quoted (join '' '' ts)) (snd (separateClasses cs))
          = map (\<lambda>p. quoted (join '' '' (filter (\<lambda>c. findPrefix c = Some p) cs))) ?ks"
    unfolding 1 by (simp add: comp_def)
  finally have 2: "buildClassParts ?base (snd (separateClasses cs))
       = (if ?base = [] then [] else [[CHR 0x22] @ join '' '' ?base @ [CHR 0x22]])
         @ map (\<lambda>p. [CHR 0x22] @ join '' '' (filter (\<lambda>c. findPrefix c = Some p) cs) @ [CHR 0x22]) ?ks"
    by (simp add: quoted_def)
  have 3: "set ?ks = set (List.map_filter findPrefix cs)"
    by simp
  show ?thesis
    unfolding k
    using separateClasses_first_members [of cs, unfolded k] 3 1 2
    by (intro conjI) assumption+
qed

theorem bucket_order_witness:
  "map fst (snd (separateClasses [''md:a'', ''x'', ''sm:b'', ''md:c''])) = [''md:'', ''sm:'']
   \<and> sorted_wrt (<) (map (\<lambda>p. length (takeWhile (\<lambda>c. findPrefix c \<noteq> Some p)
                                       [''md:a'', ''x'', ''sm:b'', ''md:c'']))
                         [''md:'', ''sm:''])
   \<and> buildClassParts (fst (separateClasses [''md:a'', ''x'', ''sm:b'', ''md:c'']))
                     (snd (separateClasses [''md:a'', ''x'', ''sm:b'', ''md:c'']))
       = [''\"x\"'', ''\"md:a md:c\"'', ''\"sm:b\"'']"
proof -
  let ?cs = "[''md:a'', ''x'', ''sm:b'', ''md:c'']"
  have h: "map fst (snd (separateClasses ?cs)) = [''md:'', ''sm:'']"
    by code_simp
  have b: "fst (separateClasses ?cs) = [''x'']"
    by code_simp
  have f: "filter (\<lambda>c. findPrefix c = Some ''md:'') ?cs = [''md:a'', ''md:c'']"
          "filter (\<lambda>c. findPrefix c = Some ''sm:'') ?cs = [''sm:b'']"
    by code_simp+
  from bucket_order [of ?cs]
  have order: "sorted_wrt (<) (map (\<lambda>p. length (takeWhile (\<lambda>c. findPrefix c \<noteq> Some p) ?cs))
                                 (map fst (snd (separateClasses ?cs))))"
    and parts: "buildClassParts (fst (separateClasses ?cs)) (snd (separateClasses ?cs))
       = (if fst (separateClasses ?cs) = [] then []
          else [[CHR 0x22] @ join '' '' (fst (separateClasses ?cs)) @ [CHR 0x22]])
         @ map (\<lambda>p. [CHR 0x22] @ join '' '' (filter (\<lambda>c. findPrefix c = Some p) ?cs) @ [CHR 0x22])
             (map fst (snd (separateClasses ?cs)))"
    by blast+
  have "buildClassParts (fst (separateClasses ?cs)) (snd (separateClasses ?cs))
          = [''\"x\"'', ''\"md:a md:c\"'', ''\"sm:b\"'']"
    unfolding parts unfolding h b list.map f by simp
  then show ?thesis
    using h order unfolding h by blast
qed

section \<open>Splitting, joining and classifying again\<close>

lemma split_ws_Nil:
  "dropWhile (\<lambda>c. \<not> isWhiteSpace c) s = [] \<Longrightarrow> split_ws s = [s]"
  by (simp only: split_ws.simps [of s] list.case)

lemma split_ws_Cons:
  "dropWhile (\<lambda>c. \<not> isWhiteSpace c) s = r # rs \<Longrightarrow>
     split_ws s = takeWhile (\<lambda>c. \<not> isWhiteSpace c) s # split_ws (dropWhile isWhiteSpace rs)"
  by (simp only: split_ws.simps [of s] list.case)

lemma split_ws_no_space:
  "t \<in> set (split_ws s) \<Longrightarrow> c \<in> set t \<Longrightarrow> \<not> isWhiteSpace c"
proof (induction s rule: split_ws.induct)
  case (1 s)
  show ?case
  proof (cases "dropWhile (\<lambda>c. \<not> isWhiteSpace c) s")
    case Nil
    then have "t = s" using "1.prems"(1) by (simp only: split_ws_Nil) simp
    moreover have "\<forall>x \<in> set s. \<not> isWhiteSpace x"
      using Nil by (simp add: dropWhile_eq_Nil_conv)
    ultimately show ?thesis using "1.prems"(2) by blast
  next
    case (Cons r rs)
    then have "t = takeWhile (\<lambda>c. \<not> isWhiteSpace c) s \<or> t \<in> set (split_ws (dropWhile isWhiteSpace rs))"
      using "1.prems"(1) by (simp only: split_ws_Cons) simp
    then show ?thesis
    proof
      assume "t = takeWhile (\<lambda>c. \<not> isWhiteSpace c) s"
      then show ?thesis using "1.prems"(2) by (auto dest: set_takeWhileD)
    next
      assume "t \<in> set (split_ws (dropWhile isWhiteSpace rs))"
      then show ?thesis using "1.IH" [OF Cons] "1.prems"(2) by blast
    qed
  qed
qed

lemma split_ws_plain:
  assumes "\<forall>c \<in> set x. \<not> isWhiteSpace c"
  shows "split_ws x = [x]"
proof -
  have "dropWhile (\<lambda>c. \<not> isWhiteSpace c) x = []"
    using assms by (simp add: dropWhile_eq_Nil_conv)
  then show ?thesis by (rule split_ws_Nil)
qed

lemma split_ws_token_space:
  assumes x: "\<forall>c \<in> set x. \<not> isWhiteSpace c"
      and r: "rest = [] \<or> \<not> isWhiteSpace (hd rest)"
  shows "split_ws (x @ '' '' @ rest) = x # split_ws rest"
proof -
  have sp: "isWhiteSpace CHR '' ''" by (simp add: isWhiteSpace_def)
  have d: "dropWhile (\<lambda>c. \<not> isWhiteSpace c) (x @ '' '' @ rest) = CHR '' '' # rest"
    using x sp by (simp add: dropWhile_append2)
  have t: "takeWhile (\<lambda>c. \<not> isWhiteSpace c) (x @ '' '' @ rest) = x"
    using x sp by (simp add: takeWhile_append2)
  have "dropWhile isWhiteSpace rest = rest"
    using r by (cases rest) auto
  then show ?thesis
    using split_ws_Cons [OF d] by (simp only: t)
qed

lemma join_Cons_nonempty:
  "y \<noteq> [] \<Longrightarrow> join sep (y # ys) \<noteq> [] \<and> hd (join sep (y # ys)) = hd y"
  by (cases ys) auto

lemma split_ws_join:
  assumes "g \<noteq> []" and "\<forall>t \<in> set g. t \<noteq> [] \<and> (\<forall>c \<in> set t. \<not> isWhiteSpace c)"
  shows "split_ws (join '' '' g) = g"
  using assms
proof (induction g rule: induct_list012)
  case 1
  then show ?case by simp
next
  case (2 x)
  then show ?case by (simp add: split_ws_plain)
next
  case (3 x y zs)
  have y: "y \<noteq> []" "\<not> isWhiteSpace (hd y)"
    using "3.prems"(2) by (auto simp: hd_in_set)
  have "split_ws (x @ '' '' @ join '' '' (y # zs)) = x # split_ws (join '' '' (y # zs))"
    using "3.prems"(2) y join_Cons_nonempty [of y "'' ''" zs]
    by (intro split_ws_token_space) auto
  moreover have "split_ws (join '' '' (y # zs)) = y # zs"
    using "3.IH"(2) "3.prems"(2) by simp
  ultimately show ?case by simp
qed

lemma classify_base:
  "\<forall>c \<in> set xs. findPrefix c = None \<Longrightarrow> foldl classifyStep (b, m) xs = (b @ xs, m)"
  by (induction xs arbitrary: b) (auto simp: classifyStep_def)

lemma pushMedia_last:
  assumes "p \<notin> fst ` set m"
  shows "pushMedia p c (m @ [(p, us)]) = m @ [(p, us @ [c])]"
proof -
  have "map_of (m @ [(p, us)]) p = Some us"
    using assms by (simp add: map_of_eq_None_iff [THEN iffD2] map_add_def)
  moreover have "map (\<lambda>(k, v). if k = p then (k, v @ [c]) else (k, v)) m = m"
    using assms by (intro map_idI) force
  ultimately show ?thesis by (simp add: pushMedia_def)
qed

lemma pushMedia_new:
  assumes "p \<notin> fst ` set m"
  shows "pushMedia p c m = m @ [(p, [c])]"
  using assms by (simp add: pushMedia_def map_of_eq_None_iff [THEN iffD2])

lemma classify_bucket_more:
  assumes "p \<notin> fst ` set m" and "\<forall>c \<in> set ts. findPrefix c = Some p"
  shows "foldl classifyStep (b, m @ [(p, us)]) ts = (b, m @ [(p, us @ ts)])"
  using assms(2)
proof (induction ts arbitrary: us)
  case Nil
  show ?case by simp
next
  case (Cons t ts)
  have "classifyStep (b, m @ [(p, us)]) t = (b, m @ [(p, us @ [t])])"
    using Cons.prems pushMedia_last [OF assms(1)] by (simp add: classifyStep_def)
  then show ?case using Cons by simp
qed

lemma classify_bucket:
  assumes "p \<notin> fst ` set m" and "\<forall>c \<in> set ts. findPrefix c = Some p" and "ts \<noteq> []"
  shows "foldl classifyStep (b, m) ts = (b, m @ [(p, ts)])"
proof -
  from assms(3) obtain t ts' where ts: "ts = t # ts'" by (cases ts) auto
  have "classifyStep (b, m) t = (b, m @ [(p, [t])])"
    using assms(2) pushMedia_new [OF assms(1)] by (simp add: ts classifyStep_def)
  then show ?thesis
    using classify_bucket_more [OF assms(1), of ts' b "[t]"] assms(2) by (simp add: ts)
qed

lemma classify_buckets:
  assumes "distinct (map fst (m0 @ m1))"
      and "\<forall>(p, ts) \<in> set m1. ts \<noteq> [] \<and> (\<forall>c \<in> set ts. findPrefix c = Some p)"
  shows "foldl classifyStep (b, m0) (concat (map snd m1)) = (b, m0 @ m1)"
  using assms
proof (induction m1 arbitrary: m0)
  case Nil
  show ?case by simp
next
  case (Cons pt m1)
  obtain p ts where pt: "pt = (p, ts)" by (cases pt)
  have fresh: "p \<notin> fst ` set m0"
    using Cons.prems(1) by (auto simp: pt)
  have one: "foldl classifyStep (b, m0) ts = (b, m0 @ [(p, ts)])"
    using Cons.prems(2) by (intro classify_bucket [OF fresh]) (auto simp: pt)
  have "foldl classifyStep (b, m0 @ [(p, ts)]) (concat (map snd m1)) = (b, (m0 @ [(p, ts)]) @ m1)"
    using Cons.prems by (intro Cons.IH) (auto simp: pt)
  then show ?case by (simp add: pt one)
qed

lemma separateClasses_regroup:
  assumes "separateClasses cs = (base, m)"
  shows "separateClasses (base @ concat (map snd m)) = (base, m)"
proof -
  have b: "\<forall>c \<in> set base. findPrefix c = None"
    using separateClasses_fst [of cs] assms by auto
  have m: "\<forall>(p, ts) \<in> set m. ts \<noteq> [] \<and> (\<forall>c \<in> set ts. findPrefix c = Some p)"
  proof -
    have "ts \<noteq> [] \<and> (\<forall>c \<in> set ts. findPrefix c = Some p)" if "(p, ts) \<in> set m" for p ts
    proof -
      have "(p, ts) \<in> set (snd (separateClasses cs))" using that assms by simp
      then show ?thesis
        using separateClasses_bucket [of p ts cs] separateClasses_bucket_nonempty [of p ts cs]
        by auto
    qed
    then show ?thesis by blast
  qed
  have d: "distinct (map fst ([] @ m))"
    using separateClasses_keys_distinct [of cs] assms by simp
  have "foldl classifyStep ([], []) base = (base, [])"
    using classify_base [OF b, of "[]" "[]"] by simp
  moreover have "foldl classifyStep (base, []) (concat (map snd m)) = (base, [] @ m)"
    by (rule classify_buckets [OF d m])
  ultimately show ?thesis
    by (simp add: separateClasses_def)
qed

lemma quoted_inject: "quoted s = quoted t \<Longrightarrow> s = t"
  by (simp add: quoted_def)

lemma collectArgs_groups:
  assumes "list_all2 (\<lambda>arg part. \<exists>t s e. arg = StringLiteral t s e \<and> quoted t = part) args
             (map (\<lambda>g. quoted (join '' '' g)) groups)"
      and "\<forall>g \<in> set groups. split_ws (join '' '' g) = g"
  shows "collectArgs args = Some (concat groups)"
  using assms
proof (induction groups arbitrary: args)
  case Nil
  then show ?case by simp
next
  case (Cons g groups)
  from Cons.prems(1) obtain t s e args' where
      args: "args = StringLiteral t s e # args'" and
      t: "quoted t = quoted (join '' '' g)" and
      rest: "list_all2 (\<lambda>arg part. \<exists>t s e. arg = StringLiteral t s e \<and> quoted t = part) args'
               (map (\<lambda>g. quoted (join '' '' g)) groups)"
    by (auto simp: list_all2_Cons2)
  have "collectArgs args' = Some (concat groups)"
    using Cons.IH [OF rest] Cons.prems(2) by simp
  moreover have "split_ws t = g"
    using quoted_inject [OF t] Cons.prems(2) by simp
  ultimately show ?case by (simp add: args)
qed

lemma collectArgs_no_space:
  "collectArgs args = Some cs \<Longrightarrow> t \<in> set cs \<Longrightarrow> c \<in> set t \<Longrightarrow> \<not> isWhiteSpace c"
  by (induction args arbitrary: cs rule: collectArgs.induct)
     (auto split: option.splits dest: split_ws_no_space)

lemma extractClassNames_no_space:
  "extractClassNames src init = Some (cs, st, en) \<Longrightarrow> t \<in> set cs \<Longrightarrow> c \<in> set t
     \<Longrightarrow> \<not> isWhiteSpace c"
  by (induction src init rule: extractClassNames.induct)
     (auto split: if_splits option.splits dest: split_ws_no_space collectArgs_no_space)

section \<open>Properties of the rewriter\<close>

lemma rewriteNode_attr:
  assumes "extractClassNames src init = Some (cs, st, en)"
  shows "rewriteNode src off (JsxAttribute nm (Some init) s e) =
           (if snd (separateClasses cs) = [] then None
            else Some (Replace (st + off) (en + off)
                   (newClassName (buildClassParts (fst (separateClasses cs)) (snd (separateClasses cs))))))"
  using assms by (simp add: rewriteNode_def split: prod.splits)

lemma rewriteNode_SomeD:
  assumes "rewriteNode src off n = Some ed"
  shows "\<exists>nm init s e cs st en.
           n = JsxAttribute nm (Some init) s e
         \<and> extractClassNames src init = Some (cs, st, en)
         \<and> snd (separateClasses cs) \<noteq> []
         \<and> ed = Replace (st + off) (en + off)
                  (newClassName (buildClassParts (fst (separateClasses cs)) (snd (separateClasses cs))))"
  using assms
  by (auto simp: rewriteNode_def split: node.splits option.splits prod.splits if_splits)

lemma readLiteral_quoted:
  assumes "CHR 0x22 \<notin> set b" "CHR 0x5C \<notin> set b" "CHR 0x0A \<notin> set b" "CHR 0x0D \<notin> set b"
  shows "readLiteral ([CHR 0x22] @ b @ [CHR 0x22] @ rest) = Some (b, rest)"
proof -
  have d: "dropWhile (\<lambda>d. d \<noteq> CHR 0x22) (b @ CHR 0x22 # rest) = CHR 0x22 # rest"
    using assms(1) by (subst dropWhile_append2) auto
  have t: "takeWhile (\<lambda>d. d \<noteq> CHR 0x22) (b @ CHR 0x22 # rest) = b"
    using assms(1) by (subst takeWhile_append2) auto
  show ?thesis
    using assms(2-4) by (simp add: readLiteral_def d t)
qed

lemma set_join: "set (join sep g) \<subseteq> set sep \<union> \<Union> (set ` set g)"
  by (induction sep g rule: join.induct) auto

lemma join_no_char:
  assumes "\<forall>t \<in> set g. x \<notin> set t" and "x \<noteq> CHR '' ''"
  shows "x \<notin> set (join '' '' g)"
  using set_join [of "'' ''" g] assms by auto

lemma whitespace_chars: "isWhiteSpace (CHR 0x0A)" "isWhiteSpace (CHR 0x0D)" "isWhiteSpace (CHR '' '')"
  by (simp_all add: isWhiteSpace_def)

text \<open>A group of tokens without white space, double quotes and backslashes reads back whole.\<close>

lemma readLiteral_group:
  assumes "\<forall>t \<in> set g. \<forall>x \<in> set t. \<not> isWhiteSpace x \<and> x \<noteq> CHR 0x22 \<and> x \<noteq> CHR 0x5C"
  shows "readLiteral ([CHR 0x22] @ join '' '' g @ [CHR 0x22] @ rest) = Some (join '' '' g, rest)"
proof (rule readLiteral_quoted)
  show "CHR 0x22 \<notin> set (join '' '' g)"
    using assms by (intro join_no_char) auto
  show "CHR 0x5C \<notin> set (join '' '' g)"
    using assms by (intro join_no_char) auto
  show "CHR 0x0A \<notin> set (join '' '' g)"
    using assms whitespace_chars(1) by (intro join_no_char) auto
  show "CHR 0x0D \<notin> set (join '' '' g)"
    using assms whitespace_chars(2) by (intro join_no_char) auto
qed

lemma separateClasses_groups_subset:
  assumes "g \<in> set ((if fst (separateClasses cs) = [] then [] else [fst (separateClasses cs)])
                     @ map snd (snd (separateClasses cs)))"
  shows "g \<noteq> [] \<and> set g \<subseteq> set cs"
proof -
  from assms consider "g = fst (separateClasses cs)" "fst (separateClasses cs) \<noteq> []"
    | p where "(p, g) \<in> set (snd (separateClasses cs))"
    by (auto split: if_splits)
  then show ?thesis
  proof cases
    case 1
    then show ?thesis by (simp add: separateClasses_fst)
  next
    case 2
    then show ?thesis
      using separateClasses_bucket [OF 2] separateClasses_bucket_nonempty [OF 2] by auto
  qed
qed




text \<open>
  Claim C10. Every replacement text has at least one quoted string argument: an edit is
  produced only when the bucket mapping is non-empty, every bucket of the mapping is a
  non-empty token list, and the text between \<open>{twJoin(\<close> and \<open>)}\<close> is a non-empty list
  of items, each a non-empty group of tokens of the attribute, joined with single spaces
  and put between two double-quote characters, which reads as one string literal when no
  token holds a double quote or a backslash.
\<close>

theorem replacement_has_argument:
  assumes "rewriteNode src off n = Some ed"
  shows "\<exists>nm init s e cs st en parts.
           n = JsxAttribute nm (Some init) s e
         \<and> extractClassNames src init = Some (cs, st, en)
         \<and> ed = Replace (st + off) (en + off)
                  (''{twJoin('' @ [CHR 0x0A] @ ''        ''
                   @ join ('','' @ [CHR 0x0A] @ ''        '') parts
                   @ [CHR 0x0A] @ ''      )}'')
         \<and> parts = buildClassParts (fst (separateClasses cs)) (snd (separateClasses cs))
         \<and> snd (separateClasses cs) \<noteq> []
         \<and> (\<forall>(p, ts) \<in> set (snd (separateClasses cs)). ts \<noteq> [])
         \<and> parts \<noteq> []
         \<and> (\<forall>part \<in> set parts.
               \<exists>g. g \<noteq> [] \<and> set g \<subseteq> set cs
                 \<and> part = [CHR 0x22] @ join '' '' g @ [CHR 0x22]
                 \<and> ((\<forall>c \<in> set cs. CHR 0x22 \<notin> set c \<and> CHR 0x5C \<notin> set c)
                      \<longrightarrow> readLiteral part = Some (join '' '' g, [])))"
proof -
  from rewriteNode_SomeD [OF assms] obtain nm init s e cs st en where
    n: "n = JsxAttribute nm (Some init) s e" and
    ex: "extractClassNames src init = Some (cs, st, en)" and
    m: "snd (separateClasses cs) \<noteq> []" and
    ed: "ed = Replace (st + off) (en + off)
           (newClassName (buildClassParts (fst (separateClasses cs)) (snd (separateClasses cs))))"
    by blast
  let ?base = "fst (separateClasses cs)" and ?m = "snd (separateClasses cs)"
  let ?groups = "(if ?base = [] then [] else [?base]) @ map snd ?m"
  have ne: "\<forall>(p, ts) \<in> set ?m. ts \<noteq> []"
    using separateClasses_bucket_nonempty by fastforce
  have parts: "buildClassParts ?base ?m = map (\<lambda>g. [CHR 0x22] @ join '' '' g @ [CHR 0x22]) ?groups"
    using buildClassParts_buckets [of cs ?base ?m]
    by (simp add: quoted_def comp_def case_prod_beta)
  have nonempty: "buildClassParts ?base ?m \<noteq> []"
    using m by (simp add: parts)
  have each: "\<exists>g. g \<noteq> [] \<and> set g \<subseteq> set cs
                 \<and> part = [CHR 0x22] @ join '' '' g @ [CHR 0x22]
                 \<and> ((\<forall>c \<in> set cs. CHR 0x22 \<notin> set c \<and> CHR 0x5C \<notin> set c)
                      \<longrightarrow> readLiteral part = Some (join '' '' g, []))"
    if "part \<in> set (buildClassParts ?base ?m)" for part
  proof -
    from that obtain g where g: "g \<in> set ?groups" and
        part: "part = [CHR 0x22] @ join '' '' g @ [CHR 0x22]"
      unfolding parts by auto
    have sub: "g \<noteq> [] \<and> set g \<subseteq> set cs"
      by (rule separateClasses_groups_subset [OF g])
    have "readLiteral part = Some (join '' '' g, [])"
      if plain: "\<forall>c \<in> set cs. CHR 0x22 \<notin> set c \<and> CHR 0x5C \<notin> set c"
    proof -
      have "\<forall>t \<in> set g. \<forall>x \<in> set t. \<not> isWhiteSpace x \<and> x \<noteq> CHR 0x22 \<and> x \<noteq> CHR 0x5C"
        using plain sub extractClassNames_no_space [OF ex] by blast
      from readLiteral_group [OF this, of "[]"] show ?thesis by (simp add: part)
    qed
    with sub part show ?thesis by blast
  qed
  have nc: "newClassName (buildClassParts ?base ?m)
                = ''{twJoin('' @ [CHR 0x0A] @ ''        ''
                   @ join ('','' @ [CHR 0x0A] @ ''        '') (buildClassParts ?base ?m)
                   @ [CHR 0x0A] @ ''      )}''"
    by (simp add: newClassName_def)
  show ?thesis
    using n ex ed [unfolded nc] m ne nonempty each by blast
qed

theorem replacement_has_argument_witness:
  "rewriteNode ''<p className={\"mobile:hidden\"} />'' 0
     (JsxAttribute (3, 12) (Some (JsxExpression (Some (StringLiteral ''mobile:hidden'' 14 29)) 13 30)) 3 30)
     = Some (Replace 13 30
         (''{twJoin('' @ [CHR 0x0A] @ ''        '' @ ''\"mobile:hidden\"'' @ [CHR 0x0A] @ ''      )}''))
   \<and> (\<exists>nm init s e cs st en parts.
           JsxAttribute (3, 12) (Some (JsxExpression (Some (StringLiteral ''mobile:hidden'' 14 29)) 13 30)) 3 30
             = JsxAttribute nm (Some init) s e
         \<and> extractClassNames ''<p className={\"mobile:hidden\"} />'' init = Some (cs, st, en)
         \<and> Replace 13 30
              (''{twJoin('' @ [CHR 0x0A] @ ''        '' @ ''\"mobile:hidden\"'' @ [CHR 0x0A] @ ''      )}'')
            = Replace (st + 0) (en + 0)
                  (''{twJoin('' @ [CHR 0x0A] @ ''        ''
                   @ join ('','' @ [CHR 0x0A] @ ''        '') parts
                   @ [CHR 0x0A] @ ''      )}'')
         \<and> parts = buildClassParts (fst (separateClasses cs)) (snd (separateClasses cs))
         \<and> snd (separateClasses cs) \<noteq> []
         \<and> (\<forall>(p, ts) \<in> set (snd (separateClasses cs)). ts \<noteq> [])
         \<and> parts \<noteq> []
         \<and> (\<forall>part \<in> set parts.
               \<exists>g. g \<noteq> [] \<and> set g \<subseteq> set cs
                 \<and> part = [CHR 0x22] @ join '' '' g @ [CHR 0x22]
                 \<and> ((\<forall>c \<in> set cs. CHR 0x22 \<notin> set c \<and> CHR 0x5C \<notin> set c)
                      \<longrightarrow> readLiteral part = Some (join '' '' g, []))))"
proof -
  have h: "rewriteNode ''<p className={\"mobile:hidden\"} />'' 0
     (JsxAttribute (3, 12) (Some (JsxExpression (Some (StringLiteral ''mobile:hidden'' 14 29)) 13 30)) 3 30)
     = Some (Replace 13 30
         (''{twJoin('' @ [CHR 0x0A] @ ''        '' @ ''\"mobile:hidden\"'' @ [CHR 0x0A] @ ''      )}''))"
    by code_simp
  show ?thesis
    using h replacement_has_argument [OF h] by blast
qed

section \<open>Empty tokens\<close>

text \<open>
  Claim C5 says that the token list handed to the classifier has no empty token. The
  split of lines 71, 77 and 91 keeps the empty piece before a leading and after a
  trailing whitespace run, and turns the empty value into one empty token. An attribute
  value made of a space followed by \<open>sm:p-8\<close> reaches the classifier as an empty token
  followed by \<open>sm:p-8\<close>; the empty token counts as a base class, the guard
  \<open>baseClasses.length > 0\<close> passes, and the replacement text gets an empty first
  argument.
\<close>

theorem split_ws_empty_tokens:
  "split_ws '' sm:p-8'' = ['''', ''sm:p-8'']
   \<and> split_ws ''p-4 '' = [''p-4'', '''']
   \<and> split_ws '''' = ['''']
   \<and> split_ws ''  '' = ['''', '''']
   \<and> extractClassNames ''<div className=\" sm:p-8\" />'' (StringLiteral '' sm:p-8'' 15 24)
       = Some (['''', ''sm:p-8''], 15, 24)
   \<and> rewriteNode ''<div className=\" sm:p-8\" />'' 0
         (JsxAttribute (5, 14) (Some (StringLiteral '' sm:p-8'' 15 24)) 5 24)
       = Some (Replace 15 24 (newClassName [quoted '''', quoted ''sm:p-8'']))"
  by code_simp

section \<open>Properties of the edit collector and of the command\<close>

lemma startsWith_iff: "startsWith cls p \<longleftrightarrow> (\<exists>suf. cls = p @ suf)"
  unfolding startsWith_def
  by (metis append_eq_conv_conj append_take_drop_id)

lemma includesStr_iff: "includesStr doc pat \<longleftrightarrow> (\<exists>pre suf. doc = pre @ pat @ suf)"
proof (induction doc)
  case Nil
  show ?case by auto
next
  case (Cons c cs)
  show ?case
  proof
    assume "includesStr (c # cs) pat"
    then consider "startsWith (c # cs) pat" | "includesStr cs pat" by auto
    then show "\<exists>pre suf. c # cs = pre @ pat @ suf"
    proof cases
      case 1
      then obtain suf where "c # cs = pat @ suf" by (auto simp: startsWith_iff)
      then have "c # cs = [] @ pat @ suf" by simp
      then show ?thesis by blast
    next
      case 2
      then obtain pre suf where "cs = pre @ pat @ suf" using Cons by auto
      then have "c # cs = (c # pre) @ pat @ suf" by simp
      then show ?thesis by blast
    qed
  next
    assume "\<exists>pre suf. c # cs = pre @ pat @ suf"
    then obtain pre suf where eq: "c # cs = pre @ pat @ suf" by blast
    show "includesStr (c # cs) pat"
    proof (cases pre)
      case Nil
      then have "startsWith (c # cs) pat" using eq by (auto simp: startsWith_iff)
      then show ?thesis by simp
    next
      case (Cons d pre')
      then have "cs = pre' @ pat @ suf" using eq by simp
      then have "includesStr cs pat" using Cons.IH by blast
      then show ?thesis by simp
    qed
  qed
qed

lemma rewriteNode_is_Replace:
  "rewriteNode src off n = Some ed \<Longrightarrow> \<exists>a b t. ed = Replace a b t"
  by (auto dest: rewriteNode_SomeD)

lemma map_filter_rewrite_Replace:
  "ed \<in> set (List.map_filter (rewriteNode src off) ns) \<Longrightarrow> \<exists>a b t. ed = Replace a b t"
  by (auto simp: mem_map_filter dest: rewriteNode_is_Replace)

lemma collectEdits_eq:
  "collectEdits text src off root =
     List.map_filter (rewriteNode src off) (findClassNames src root)
     @ (if List.map_filter (rewriteNode src off) (findClassNames src root) \<noteq> []
           \<and> \<not> includesStr text importStatement
        then [Insert 0 (importStatement @ [CHR 0x0A])] else [])"
  by (simp add: collectEdits_def ensureImportStatement_def Let_def)

lemma extract_parsed:
  assumes "createSourceFile (fst (selectSource ed)) = Inr sourceFile"
  shows "extractTailwindClasses createSourceFile (Some ed)
           = \<lparr>applied = [collectEdits (docText ed) (fst (selectSource ed)) (snd (selectSource ed)) sourceFile],
              shown = []\<rparr>"
  using assms by (auto simp: extractTailwindClasses_def split: prod.splits)

text \<open>
  Claim C6. When the tree has been built, the batch handed to the host is the
  replacements followed by the import insertion, and the insertion is there if and only
  if there is at least one replacement and the import line does not occur anywhere in
  the text of the whole document (\<open>docText\<close>, not the scanned part). The insertion is a
  single edit at offset 0 whose text is the import line followed by a line feed; the
  other edits of the batch are all replacements.
\<close>

theorem import_insertion:
  assumes "createSourceFile (fst (selectSource ed)) = Inr sourceFile"
  defines "replaces \<equiv> List.map_filter (rewriteNode (fst (selectSource ed)) (snd (selectSource ed)))
                         (findClassNames (fst (selectSource ed)) sourceFile)"
  shows "applied (extractTailwindClasses createSourceFile (Some ed))
           = [replaces @ (if replaces \<noteq> [] \<and> \<not> (\<exists>pre suf. docText ed = pre @ importStatement @ suf)
                          then [Insert 0 (importStatement @ [CHR 0x0A])] else [])]
       \<and> (\<forall>e \<in> set replaces. \<exists>a b t. e = Replace a b t)"
proof -
  have "\<forall>e \<in> set replaces. \<exists>a b t. e = Replace a b t"
    unfolding replaces_def using map_filter_rewrite_Replace by blast
  moreover have "applied (extractTailwindClasses createSourceFile (Some ed))
           = [replaces @ (if replaces \<noteq> [] \<and> \<not> (\<exists>pre suf. docText ed = pre @ importStatement @ suf)
                          then [Insert 0 (importStatement @ [CHR 0x0A])] else [])]"
    using extract_parsed [of createSourceFile ed sourceFile, OF assms(1)]
    by (simp add: collectEdits_eq includesStr_iff replaces_def)
  ultimately show ?thesis by blast
qed

lemma extractClassNames_span:
  "extractClassNames src init = Some (cs, st, en) \<Longrightarrow> st = getStart init \<and> en = getEnd init"
  by (induction src init rule: extractClassNames.induct) (auto split: if_splits option.splits)

lemma findClassNames_shape:
  "n \<in> set (findClassNames src root) \<Longrightarrow>
     \<exists>nm init s e. n = JsxAttribute nm (Some init) s e \<and> substring src (fst nm) (snd nm) = ''className''"
  by (induction src root rule: findClassNames.induct) (auto split: option.splits if_splits)

lemma selectSource_offset:
  "snd (selectSource ed) = (if selStart ed \<noteq> selEnd ed then selStart ed else 0)"
  by (simp add: selectSource_def)

text \<open>
  Claim C7. Every replacement of the batch comes from a candidate attribute of the
  scanned text, and its offsets in the document are the offsets of the attribute's value
  in the scanned text plus the start offset of the selection; when there is no selection
  and the whole document is scanned, what is added is 0.
\<close>

theorem edit_offsets:
  assumes "createSourceFile (fst (selectSource ed)) = Inr sourceFile"
      and "Replace a b t \<in> set (concat (applied (extractTailwindClasses createSourceFile (Some ed))))"
  shows "\<exists>nm init s e.
           JsxAttribute nm (Some init) s e \<in> set (findClassNames (fst (selectSource ed)) sourceFile)
         \<and> rewriteNode (fst (selectSource ed)) 0 (JsxAttribute nm (Some init) s e)
             = Some (Replace (getStart init) (getEnd init) t)
         \<and> a = getStart init + (if selStart ed \<noteq> selEnd ed then selStart ed else 0)
         \<and> b = getEnd init + (if selStart ed \<noteq> selEnd ed then selStart ed else 0)"
proof -
  let ?src = "fst (selectSource ed)" and ?off = "snd (selectSource ed)"
  have "Replace a b t \<in> set (collectEdits (docText ed) ?src ?off sourceFile)"
    using assms(2) extract_parsed [of createSourceFile ed sourceFile, OF assms(1)] by simp
  then have "Replace a b t \<in> set (List.map_filter (rewriteNode ?src ?off) (findClassNames ?src sourceFile))"
    by (auto simp: collectEdits_eq split: if_splits)
  then obtain n where n: "n \<in> set (findClassNames ?src sourceFile)"
      and rw: "rewriteNode ?src ?off n = Some (Replace a b t)"
    by (auto simp: mem_map_filter)
  from rewriteNode_SomeD [OF rw] obtain nm init s e cs st en where
      shape: "n = JsxAttribute nm (Some init) s e"
      and ex: "extractClassNames ?src init = Some (cs, st, en)"
      and m: "snd (separateClasses cs) \<noteq> []"
      and ed: "Replace a b t = Replace (st + ?off) (en + ?off)
             (newClassName (buildClassParts (fst (separateClasses cs)) (snd (separateClasses cs))))"
    by blast
  have span: "st = getStart init" "en = getEnd init"
    using extractClassNames_span [OF ex] by simp_all
  have "rewriteNode ?src 0 (JsxAttribute nm (Some init) s e) = Some (Replace (getStart init) (getEnd init) t)"
    using rewriteNode_attr [OF ex, of 0 nm s e] m ed span by simp
  moreover have "a = getStart init + ?off" "b = getEnd init + ?off"
    using ed span by simp_all
  ultimately show ?thesis
    using n shape unfolding selectSource_offset by blast
qed

lemma rewriteNodeOn_eq:
  "rewriteNodeOn h src off n =
     (case rewriteNode src off n of
        None \<Rightarrow> Inr None
      | Some (Replace a b t) \<Rightarrow>
          (case positionAt h a of
             Inl message \<Rightarrow> Inl message
           | Inr p \<Rightarrow>
               (case positionAt h b of
                  Inl message \<Rightarrow> Inl message
                | Inr q \<Rightarrow> Inr (Some (Replace p q t))))
      | Some (Insert p t) \<Rightarrow> Inr None)"
  by (simp add: rewriteNodeOn_def rewriteNode_def
           split: node.splits option.splits prod.splits sum.splits)

lemma rewriteAll_append:
  "rewriteAll h src off (xs @ ys) we =
     (case rewriteAll h src off xs we of
        Inl message \<Rightarrow> Inl message
      | Inr we' \<Rightarrow> rewriteAll h src off ys we')"
  by (induction xs arbitrary: we) (auto split: sum.splits option.splits)

lemma rewriteAll_no_throw:
  assumes "\<forall>k \<in> set ns. \<exists>r. rewriteNodeOn h src off k = Inr r"
  shows "\<exists>we'. rewriteAll h src off ns we = Inr we'"
  using assms
proof (induction ns arbitrary: we)
  case Nil
  show ?case by simp
next
  case (Cons k ns)
  then obtain r where r: "rewriteNodeOn h src off k = Inr r" by auto
  show ?case
    using Cons.IH Cons.prems by (cases r) (auto simp: r)
qed

lemma rewriteAll_throws:
  assumes "\<forall>k \<in> set before. \<exists>r. rewriteNodeOn h src off k = Inr r"
      and "rewriteNodeOn h src off n = Inl cause"
  shows "rewriteAll h src off (before @ n # after) we = Inl cause"
proof -
  from rewriteAll_no_throw [OF assms(1)] obtain we' where
    "rewriteAll h src off before we = Inr we'" by blast
  then show ?thesis
    using assms(2) by (simp add: rewriteAll_append)
qed

text \<open>With a host whose position conversion never throws, the loop is the plain one.\<close>

lemma rewriteAll_plain_host:
  assumes "positionAt h = Inr"
  shows "rewriteAll h src off ns we = Inr (we @ List.map_filter (rewriteNode src off) ns)"
proof (induction ns arbitrary: we)
  case Nil
  show ?case by (simp add: List.map_filter_simps)
next
  case (Cons n ns)
  show ?case
  proof (cases "rewriteNode src off n")
    case None
    then show ?thesis
      using Cons by (simp add: rewriteNodeOn_eq List.map_filter_simps)
  next
    case (Some ed)
    then obtain a b t where "ed = Replace a b t"
      by (auto dest: rewriteNode_is_Replace)
    then show ?thesis
      using Cons Some assms by (simp add: rewriteNodeOn_eq List.map_filter_simps)
  qed
qed

lemma extract_plain_host:
  "extractTailwindClassesOn \<lparr>parseSource = createSourceFile, positionAt = Inr\<rparr> activeTextEditor
     = extractTailwindClasses createSourceFile activeTextEditor"
  by (simp add: extractTailwindClassesOn_def extractTailwindClasses_def collectEdits_def
        rewriteAll_plain_host Let_def
      split: option.splits prod.splits sum.splits)

lemma report_or_apply_on:
  "length (applied (extractTailwindClassesOn h activeTextEditor))
   + length (shown (extractTailwindClassesOn h activeTextEditor)) \<le> 1"
  by (auto simp: extractTailwindClassesOn_def split: option.splits prod.splits sum.splits)

text \<open>
  Claim C9. An exception with message \<open>cause\<close> is thrown either by the parser, or
  while the loop rewrites the candidate \<open>n\<close>, by one of the two position conversions for
  its replacement, after the candidates \<open>before\<close> it went through the loop without an
  exception (and may have put their replacements into the batch). In both cases nothing
  is handed to the host to apply, so no edit of the batch reaches the document, and
  exactly one message is shown, which ends with the message of the exception.
\<close>

theorem failure_reported_once:
  assumes "parseSource h (fst (selectSource ed)) = Inl cause
           \<or> (parseSource h (fst (selectSource ed)) = Inr sourceFile
              \<and> findClassNames (fst (selectSource ed)) sourceFile = before @ n # after
              \<and> (\<forall>k \<in> set before. \<forall>a b t.
                     rewriteNode (fst (selectSource ed)) (snd (selectSource ed)) k
                       = Some (Replace a b t)
                     \<longrightarrow> (\<exists>p q. positionAt h a = Inr p \<and> positionAt h b = Inr q))
              \<and> rewriteNode (fst (selectSource ed)) (snd (selectSource ed)) n
                   = Some (Replace a b t)
              \<and> (positionAt h a = Inl cause
                  \<or> (\<exists>p. positionAt h a = Inr p \<and> positionAt h b = Inl cause)))"
  shows "extractTailwindClassesOn h (Some ed)
           = \<lparr>applied = [],
              shown = [''An error occurred while extracting Tailwind classes: '' @ cause]\<rparr>"
  using assms
proof
  assume "parseSource h (fst (selectSource ed)) = Inl cause"
  then show ?thesis
    by (auto simp: extractTailwindClassesOn_def split: prod.splits)
next
  let ?src = "fst (selectSource ed)" and ?off = "snd (selectSource ed)"
  assume r: "parseSource h ?src = Inr sourceFile
              \<and> findClassNames ?src sourceFile = before @ n # after
              \<and> (\<forall>k \<in> set before. \<forall>a b t.
                     rewriteNode ?src ?off k = Some (Replace a b t)
                     \<longrightarrow> (\<exists>p q. positionAt h a = Inr p \<and> positionAt h b = Inr q))
              \<and> rewriteNode ?src ?off n = Some (Replace a b t)
              \<and> (positionAt h a = Inl cause
                  \<or> (\<exists>p. positionAt h a = Inr p \<and> positionAt h b = Inl cause))"
  have ok: "\<exists>r. rewriteNodeOn h ?src ?off k = Inr r" if k: "k \<in> set before" for k
  proof (cases "rewriteNode ?src ?off k")
    case None
    then show ?thesis by (simp add: rewriteNodeOn_eq)
  next
    case (Some e)
    then obtain a' b' t' where e: "e = Replace a' b' t'"
      by (auto dest: rewriteNode_is_Replace)
    with r k Some obtain p q where "positionAt h a' = Inr p" "positionAt h b' = Inr q"
      by blast
    then show ?thesis using Some e by (simp add: rewriteNodeOn_eq)
  qed
  have thrown: "rewriteNodeOn h ?src ?off n = Inl cause"
    using r by (auto simp: rewriteNodeOn_eq)
  have "rewriteAll h ?src ?off (before @ n # after) [] = Inl cause"
    using ok thrown by (intro rewriteAll_throws) auto
  then show ?thesis
    using r by (auto simp: extractTailwindClassesOn_def split: prod.splits)
qed

lemma report_or_apply:
  "length (applied (extractTailwindClasses createSourceFile activeTextEditor))
   + length (shown (extractTailwindClasses createSourceFile activeTextEditor)) \<le> 1"
  by (auto simp: extractTailwindClasses_def split: option.splits prod.splits sum.splits)

theorem import_insertion_witness:
  "applied (extractTailwindClasses pageParser (Some \<lparr>docText = page1, selStart = 0, selEnd = 0\<rparr>))
     = [[Replace 15 43 (newClassName [quoted ''mobile:hidden'', quoted ''desktop:flex'']),
         Insert 0 (importStatement @ [CHR 0x0A])]]
   \<and> applied (extractTailwindClasses pageParser (Some \<lparr>docText = page2, selStart = 0, selEnd = 0\<rparr>))
     = [[Replace 56 121 (newClassName [quoted ''mobile:hidden'', quoted ''desktop:flex''])]]"
proof -
  let ?ed1 = "\<lparr>docText = page1, selStart = 0, selEnd = 0\<rparr>"
  let ?ed2 = "\<lparr>docText = page2, selStart = 0, selEnd = 0\<rparr>"
  have s1: "selectSource ?ed1 = (page1, 0)" and s2: "selectSource ?ed2 = (page2, 0)"
    by (simp_all add: selectSource_def)
  have p1: "pageParser (fst (selectSource ?ed1)) = Inr page1Tree"
    by (simp add: s1 pageParser_def)
  have p2: "pageParser (fst (selectSource ?ed2)) = Inr page2Tree"
    unfolding s2 by code_simp
  have r1: "List.map_filter (rewriteNode page1 0) (findClassNames page1 page1Tree)
              = [Replace 15 43 (newClassName [quoted ''mobile:hidden'', quoted ''desktop:flex''])]"
    by code_simp
  have r2: "List.map_filter (rewriteNode page2 0) (findClassNames page2 page2Tree)
              = [Replace 56 121 (newClassName [quoted ''mobile:hidden'', quoted ''desktop:flex''])]"
    by code_simp
  have i1: "\<not> includesStr page1 importStatement" and i2: "includesStr page2 importStatement"
    by code_simp+
  show ?thesis
    using import_insertion [where createSourceFile = pageParser and ed = ?ed1
            and sourceFile = page1Tree, OF p1]
          import_insertion [where createSourceFile = pageParser and ed = ?ed2
            and sourceFile = page2Tree, OF p2] i1 i2
    by (simp add: s1 s2 r1 r2 includesStr_iff)
qed

theorem edit_offsets_witness:
  "applied (extractTailwindClasses (\<lambda>sourceText. Inr selection3Tree) (Some page3Editor))
     = [[Replace 28 40 (newClassName [quoted ''p-4'', quoted ''sm:p-8'']),
         Insert 0 (importStatement @ [CHR 0x0A])]]
   \<and> (\<exists>nm init s e.
         JsxAttribute nm (Some init) s e
           \<in> set (findClassNames (fst (selectSource page3Editor)) selection3Tree)
       \<and> rewriteNode (fst (selectSource page3Editor)) 0 (JsxAttribute nm (Some init) s e)
           = Some (Replace (getStart init) (getEnd init) (newClassName [quoted ''p-4'', quoted ''sm:p-8'']))
       \<and> (28::nat) = getStart init + 13
       \<and> (40::nat) = getEnd init + 13)"
proof -
  have p: "(\<lambda>sourceText. Inr selection3Tree) (fst (selectSource page3Editor)) = Inr selection3Tree"
    by simp
  have a: "applied (extractTailwindClasses (\<lambda>sourceText. Inr selection3Tree) (Some page3Editor))
     = [[Replace 28 40 (newClassName [quoted ''p-4'', quoted ''sm:p-8'']),
         Insert 0 (importStatement @ [CHR 0x0A])]]"
    by code_simp
  have sel: "selStart page3Editor = 13" "selEnd page3Editor = 43"
    by (simp_all add: page3Editor_def)
  have "Replace 28 40 (newClassName [quoted ''p-4'', quoted ''sm:p-8''])
          \<in> set (concat (applied (extractTailwindClasses (\<lambda>sourceText. Inr selection3Tree)
                                    (Some page3Editor))))"
    unfolding a by simp
  from edit_offsets [where createSourceFile = "\<lambda>sourceText. Inr selection3Tree"
         and ed = page3Editor and sourceFile = selection3Tree, OF p this]
  show ?thesis
    unfolding a sel by simp
qed

theorem failure_reported_once_witness:
  "extractTailwindClassesOn
     \<lparr>parseSource = (\<lambda>sourceText. Inr page4Tree),
      positionAt = (\<lambda>offset. if offset < 30 then Inr offset else Inl ''Illegal value for offset'')\<rparr>
     (Some \<lparr>docText = page4, selStart = 0, selEnd = 0\<rparr>)
   = \<lparr>applied = [],
      shown = [''An error occurred while extracting Tailwind classes: Illegal value for offset'']\<rparr>
   \<and> rewriteNodeOn
       \<lparr>parseSource = (\<lambda>sourceText. Inr page4Tree),
        positionAt = (\<lambda>offset. if offset < 30 then Inr offset else Inl ''Illegal value for offset'')\<rparr>
       page4 0 (JsxAttribute (3, 12) (Some (StringLiteral ''sm:x'' 13 19)) 3 19)
     = Inr (Some (Replace 13 19 (newClassName [quoted ''sm:x''])))
   \<and> extractTailwindClassesOn
       \<lparr>parseSource = (\<lambda>sourceText. Inl ''Debug Failure.''),
        positionAt = Inr\<rparr>
       (Some \<lparr>docText = page4, selStart = 0, selEnd = 0\<rparr>)
     = \<lparr>applied = [],
        shown = [''An error occurred while extracting Tailwind classes: Debug Failure.'']\<rparr>"
proof -
  let ?h = "\<lparr>parseSource = (\<lambda>sourceText. Inr page4Tree),
             positionAt = (\<lambda>offset. if offset < 30 then Inr offset
                                    else Inl ''Illegal value for offset'')\<rparr>"
  let ?g = "\<lparr>parseSource = (\<lambda>sourceText. Inl ''Debug Failure.''), positionAt = Inr\<rparr>"
  let ?ed = "\<lparr>docText = page4, selStart = 0, selEnd = 0\<rparr>"
  let ?first = "JsxAttribute (3, 12) (Some (StringLiteral ''sm:x'' 13 19)) 3 19"
  let ?second = "JsxAttribute (23, 32) (Some (StringLiteral ''md:y'' 33 39)) 23 39"
  have s: "selectSource ?ed = (page4, 0)"
    by (simp add: selectSource_def)
  have nodes: "findClassNames page4 page4Tree = [?first] @ ?second # []"
    by code_simp
  have r1: "rewriteNode page4 0 ?first = Some (Replace 13 19 (newClassName [quoted ''sm:x'']))"
    by code_simp
  have r2: "rewriteNode page4 0 ?second = Some (Replace 33 39 (newClassName [quoted ''md:y'']))"
    by code_simp
  have collected: "rewriteNodeOn ?h page4 0 ?first
                     = Inr (Some (Replace 13 19 (newClassName [quoted ''sm:x''])))"
    by (simp add: rewriteNodeOn_eq r1)
  have hyp: "parseSource ?h (fst (selectSource ?ed)) = Inl ''Illegal value for offset''
           \<or> (parseSource ?h (fst (selectSource ?ed)) = Inr page4Tree
              \<and> findClassNames (fst (selectSource ?ed)) page4Tree = [?first] @ ?second # []
              \<and> (\<forall>k \<in> set [?first]. \<forall>a b t.
                     rewriteNode (fst (selectSource ?ed)) (snd (selectSource ?ed)) k
                       = Some (Replace a b t)
                     \<longrightarrow> (\<exists>p q. positionAt ?h a = Inr p \<and> positionAt ?h b = Inr q))
              \<and> rewriteNode (fst (selectSource ?ed)) (snd (selectSource ?ed)) ?second
                   = Some (Replace 33 39 (newClassName [quoted ''md:y'']))
              \<and> (positionAt ?h 33 = Inl ''Illegal value for offset''
                  \<or> (\<exists>p. positionAt ?h 33 = Inr p \<and> positionAt ?h 39 = Inl ''Illegal value for offset'')))"
    unfolding s using nodes r1 r2 by simp
  have hyp2: "parseSource ?g (fst (selectSource ?ed)) = Inl ''Debug Failure.''
           \<or> (parseSource ?g (fst (selectSource ?ed)) = Inr page4Tree
              \<and> findClassNames (fst (selectSource ?ed)) page4Tree = [] @ ?second # []
              \<and> (\<forall>k \<in> set []. \<forall>a b t.
                     rewriteNode (fst (selectSource ?ed)) (snd (selectSource ?ed)) k
                       = Some (Replace a b t)
                     \<longrightarrow> (\<exists>p q. positionAt ?g a = Inr p \<and> positionAt ?g b = Inr q))
              \<and> rewriteNode (fst (selectSource ?ed)) (snd (selectSource ?ed)) ?second
                   = Some (Replace 0 0 [])
              \<and> (positionAt ?g 0 = Inl ''Debug Failure.''
                  \<or> (\<exists>p. positionAt ?g 0 = Inr p \<and> positionAt ?g 0 = Inl ''Debug Failure.'')))"
    by simp
  show ?thesis
    using failure_reported_once [OF hyp] failure_reported_once [OF hyp2] collected by simp
qed

section \<open>Running the command on its own output\<close>

text \<open>
  A braced \<open>twJoin\<close> call whose string-literal arguments hold the groups emitted for a
  token list is rewritten to the text emitted for that list.
\<close>

lemma regrouped_text:
  assumes plain: "\<forall>t \<in> set cs. t \<noteq> [] \<and> (\<forall>c \<in> set t. \<not> isWhiteSpace c)"
      and m: "snd (separateClasses cs) \<noteq> []"
      and callee: "getText src2 f = ''twJoin''"
      and args: "list_all2 (\<lambda>arg part. \<exists>t s e. arg = StringLiteral t s e \<and> quoted t = part) args
                   (buildClassParts (fst (separateClasses cs)) (snd (separateClasses cs)))"
  shows "rewriteNode src2 off2
           (JsxAttribute nm2 (Some (JsxExpression (Some (CallExpression f targs args s1 e1)) s2 e2)) s3 e3)
         = Some (Replace (s2 + off2) (e2 + off2)
                  (newClassName (buildClassParts (fst (separateClasses cs)) (snd (separateClasses cs)))))"
proof -
  let ?base = "fst (separateClasses cs)" and ?m = "snd (separateClasses cs)"
  let ?groups = "(if ?base = [] then [] else [?base]) @ map snd ?m"
  have sep: "separateClasses cs = (?base, ?m)" by simp
  have parts: "buildClassParts ?base ?m = map (\<lambda>g. quoted (join '' '' g)) ?groups"
    using buildClassParts_buckets [OF sep] by (simp add: comp_def case_prod_beta)
  have round: "\<forall>g \<in> set ?groups. split_ws (join '' '' g) = g"
  proof
    fix g assume "g \<in> set ?groups"
    then have "g \<noteq> [] \<and> set g \<subseteq> set cs"
      by (rule separateClasses_groups_subset)
    then show "split_ws (join '' '' g) = g"
      using plain by (intro split_ws_join) auto
  qed
  have "collectArgs args = Some (concat ?groups)"
    using args round unfolding parts by (rule collectArgs_groups)
  moreover have "concat ?groups = ?base @ concat (map snd ?m)"
    by simp
  ultimately have ex2: "extractClassNames src2 (JsxExpression (Some (CallExpression f targs args s1 e1)) s2 e2)
                    = Some (?base @ concat (map snd ?m), s2, e2)"
    using callee by simp
  have re: "separateClasses (?base @ concat (map snd ?m)) = (?base, ?m)"
    by (rule separateClasses_regroup [OF sep])
  show ?thesis
    using rewriteNode_attr [OF ex2, of off2 nm2 s3 e3] m by (simp add: re)
qed

subsection \<open>Reading the emitted text\<close>

lemma dropWhile_space_then:
  assumes "\<forall>x \<in> set w. isWhiteSpace x" and "\<not> isWhiteSpace c"
  shows "dropWhile isWhiteSpace (w @ c # r) = c # r"
  using assms by (simp add: dropWhile_append2)

lemma not_space_chars:
  "\<not> isWhiteSpace (CHR '')'')" "\<not> isWhiteSpace (CHR '','')" "\<not> isWhiteSpace (CHR 0x22)"
  "\<not> isWhiteSpace (CHR ''}'')" "\<not> isWhiteSpace (CHR ''('')" "\<not> isWhiteSpace (CHR ''t'')"
  by (simp_all add: isWhiteSpace_def)

lemma readArguments_close:
  assumes "dropWhile isWhiteSpace s = CHR '')'' # r"
  shows "readArguments n s = Some ([], r)"
  using assms by (simp add: readArguments.simps [of n s])

lemma readArguments_last:
  assumes "dropWhile isWhiteSpace s = CHR 0x22 # r"
      and "readLiteral (CHR 0x22 # r) = Some (body, rest)"
      and "dropWhile isWhiteSpace rest = CHR '')'' # u"
  shows "readArguments n s
           = Some ([StringLiteral body (n - length (CHR 0x22 # r)) (n - length rest)], u)"
  using assms by (simp add: readArguments.simps [of n s])

lemma readArguments_more:
  assumes "dropWhile isWhiteSpace s = CHR 0x22 # r"
      and "readLiteral (CHR 0x22 # r) = Some (body, rest)"
      and "dropWhile isWhiteSpace rest = CHR '','' # u"
      and "readArguments n u = Some (args, fin)"
  shows "readArguments n s
           = Some (StringLiteral body (n - length (CHR 0x22 # r)) (n - length rest) # args, fin)"
  using assms by (simp add: readArguments.simps [of n s])

text \<open>
  The items of the emitted text, between any white space, up to the closing
  parenthesis, read as one string literal per item.
\<close>

lemma readArguments_items:
  assumes "\<forall>b \<in> set bodies. CHR 0x22 \<notin> set b \<and> CHR 0x5C \<notin> set b
                              \<and> CHR 0x0A \<notin> set b \<and> CHR 0x0D \<notin> set b"
      and "\<forall>x \<in> set w1. isWhiteSpace x" and "\<forall>x \<in> set w2. isWhiteSpace x"
      and "\<forall>x \<in> set sp. isWhiteSpace x"
  shows "\<exists>args. readArguments n
                   (w1 @ join ('','' @ sp) (map (\<lambda>b. [CHR 0x22] @ b @ [CHR 0x22]) bodies)
                    @ w2 @ '')'' @ rest)
                 = Some (args, rest)
               \<and> list_all2 (\<lambda>arg b. \<exists>s e. arg = StringLiteral b s e) args bodies"
  using assms(1,2)
proof (induction bodies arbitrary: w1 rule: induct_list012)
  case 1
  have "dropWhile isWhiteSpace ((w1 @ w2) @ CHR '')'' # rest) = CHR '')'' # rest"
    using "1.prems"(2) assms(3) not_space_chars(1) by (intro dropWhile_space_then) auto
  then show ?case
    using readArguments_close [of "w1 @ w2 @ '')'' @ rest" rest n] by simp
next
  case (2 b)
  have d1: "dropWhile isWhiteSpace (w1 @ CHR 0x22 # (b @ [CHR 0x22] @ w2 @ '')'' @ rest))
              = CHR 0x22 # (b @ [CHR 0x22] @ w2 @ '')'' @ rest)"
    using "2.prems"(2) not_space_chars(3) by (intro dropWhile_space_then) auto
  have lit: "readLiteral (CHR 0x22 # (b @ [CHR 0x22] @ w2 @ '')'' @ rest))
               = Some (b, w2 @ '')'' @ rest)"
    using readLiteral_quoted [of b "w2 @ '')'' @ rest"] "2.prems"(1) by simp
  have d2: "dropWhile isWhiteSpace (w2 @ '')'' @ rest) = CHR '')'' # rest"
    using dropWhile_space_then [of w2 "CHR '')''" rest] assms(3) not_space_chars(1) by simp
  from readArguments_last [OF d1 lit d2, of n] show ?case by simp
next
  case (3 b b' bs)
  let ?q = "\<lambda>b. [CHR 0x22] @ b @ [CHR 0x22]"
  let ?tail = "sp @ join ('','' @ sp) (map ?q (b' # bs)) @ w2 @ '')'' @ rest"
  have d1: "dropWhile isWhiteSpace (w1 @ CHR 0x22 # (b @ [CHR 0x22] @ '','' @ ?tail))
              = CHR 0x22 # (b @ [CHR 0x22] @ '','' @ ?tail)"
    using "3.prems"(2) not_space_chars(3) by (intro dropWhile_space_then) auto
  have lit: "readLiteral (CHR 0x22 # (b @ [CHR 0x22] @ '','' @ ?tail)) = Some (b, '','' @ ?tail)"
    using readLiteral_quoted [of b "'','' @ ?tail"] "3.prems"(1) by simp
  have d2: "dropWhile isWhiteSpace ('','' @ ?tail) = CHR '','' # ?tail"
    using not_space_chars(2) by simp
  from "3.IH"(2) [of sp] obtain args where
      rec: "readArguments n ?tail = Some (args, rest)" and
      all: "list_all2 (\<lambda>arg b. \<exists>s e. arg = StringLiteral b s e) args (b' # bs)"
    using "3.prems"(1) assms(4) by auto
  have "w1 @ join ('','' @ sp) (map ?q (b # b' # bs)) @ w2 @ '')'' @ rest
          = w1 @ CHR 0x22 # (b @ [CHR 0x22] @ '','' @ ?tail)"
    by simp
  then show ?case
    using readArguments_more [OF d1 lit d2 rec] all by simp
qed

lemma readValue_steps:
  assumes "drop p src = CHR ''{'' # r"
      and "dropWhile isWhiteSpace r = r1"
      and "take 6 r1 = ''twJoin''"
      and "dropWhile isWhiteSpace (drop 6 r1) = CHR ''('' # r3"
      and "readArguments (length src) r3 = Some (args, r4)"
      and "dropWhile isWhiteSpace r4 = CHR ''}'' # r5"
  shows "readValue src p
           = Some (JsxExpression
               (Some (CallExpression
                  (OtherNode [] (length src - length r1) (length src - length (drop 6 r1)))
                  [] args (length src - length r1) (length src - length r4)))
               p (length src - length r5))"
  by (simp add: readValue_def assms)

text \<open>
  The emitted text, wherever it stands in a source text, reads back as a braced call of
  \<open>twJoin\<close> over exactly its span, with one string literal per item.
\<close>

lemma readValue_emitted:
  assumes bodies: "\<forall>b \<in> set bodies. CHR 0x22 \<notin> set b \<and> CHR 0x5C \<notin> set b
                              \<and> CHR 0x0A \<notin> set b \<and> CHR 0x0D \<notin> set b"
      and emitted: "X = newClassName (map (\<lambda>b. [CHR 0x22] @ b @ [CHR 0x22]) bodies)"
  shows "\<exists>f args s' e'.
           readValue (pre @ X @ post) (length pre)
             = Some (JsxExpression (Some (CallExpression f [] args s' e'))
                       (length pre) (length pre + length X))
         \<and> getText (pre @ X @ post) f = ''twJoin''
         \<and> list_all2 (\<lambda>arg b. \<exists>s e. arg = StringLiteral b s e) args bodies"
proof -
  let ?w1 = "[CHR 0x0A] @ ''        ''" and ?w2 = "[CHR 0x0A] @ ''      ''"
  let ?items = "join ('','' @ ?w1) (map (\<lambda>b. [CHR 0x22] @ b @ [CHR 0x22]) bodies)"
  let ?r3 = "?w1 @ ?items @ ?w2 @ '')'' @ (CHR ''}'' # post)"
  let ?src = "pre @ X @ post"
  have X: "X = CHR ''{'' # ''twJoin'' @ CHR ''('' # ?w1 @ ?items @ ?w2 @ '')}''"
    by (simp add: emitted newClassName_def)
  have ws: "\<forall>x \<in> set ?w1. isWhiteSpace x" "\<forall>x \<in> set ?w2. isWhiteSpace x"
    by (auto simp: isWhiteSpace_def)
  from readArguments_items [OF bodies ws(1) ws(2) ws(1), of "length ?src" "CHR ''}'' # post"]
  obtain args where
      rd: "readArguments (length ?src) ?r3 = Some (args, CHR ''}'' # post)" and
      all: "list_all2 (\<lambda>arg b. \<exists>s e. arg = StringLiteral b s e) args bodies"
    by auto
  let ?r = "''twJoin'' @ CHR ''('' # ?r3"
  have dr: "drop (length pre) ?src = CHR ''{'' # ?r"
    by (simp add: X)
  have r1: "dropWhile isWhiteSpace ?r = ?r"
    using not_space_chars(6) by simp
  have r6: "take 6 ?r = ''twJoin''"
    by simp
  have r2: "dropWhile isWhiteSpace (drop 6 ?r) = CHR ''('' # ?r3"
    using not_space_chars(5) by simp
  have r4: "dropWhile isWhiteSpace (CHR ''}'' # post) = CHR ''}'' # post"
    using not_space_chars(4) by simp
  let ?f = "OtherNode [] (length ?src - length ?r) (length ?src - length (drop 6 ?r))"
  note val = readValue_steps [OF dr r1 r6 r2 rd r4]
  have len: "length ?src - length post = length pre + length X"
    by simp
  have "getStart ?f = length pre + 1" "getEnd ?f = length pre + 7"
    by (simp_all add: X)
  then have "getText ?src ?f = take 6 (drop (length pre + 1) ?src)"
    by (simp add: getText_def substring_def)
  also have "drop (length pre + 1) ?src = ?r"
    by (simp add: X)
  finally have tw: "getText ?src ?f = ''twJoin''"
    by simp
  show ?thesis
    using val all tw unfolding len by blast
qed

lemma newClassName_nonempty: "newClassName parts \<noteq> []"
  by (simp add: newClassName_def)

lemma literals_quoted:
  assumes "list_all2 (\<lambda>arg b. \<exists>s e. arg = StringLiteral b s e) args bodies"
  shows "list_all2 (\<lambda>arg part. \<exists>t s e. arg = StringLiteral t s e \<and> quoted t = part) args
           (map (\<lambda>b. [CHR 0x22] @ b @ [CHR 0x22]) bodies)"
  using assms by (induction rule: list_all2_induct) (auto simp: quoted_def)

text \<open>
  A candidate that is the command's own output is rewritten again, over the span of the
  emitted text, to that same text.
\<close>

lemma ownOutput_rewritten:
  assumes "ownOutput src n"
  shows "\<exists>nm i s e X.
           n = JsxAttribute nm (Some i) s e
         \<and> X \<noteq> []
         \<and> take (length X) (drop (getStart i) src) = X
         \<and> (\<forall>off. rewriteNode src off n
                     = Some (Replace (getStart i + off) (getStart i + length X + off) X))"
proof -
  from assms obtain nm i s e cs where
      n: "n = JsxAttribute nm (Some i) s e" and
      plain: "list_all plainToken cs" and
      m: "snd (separateClasses cs) \<noteq> []" and
      at: "take (length (newClassName (buildClassParts (fst (separateClasses cs))
                                                         (snd (separateClasses cs)))))
             (drop (getStart i) src)
           = newClassName (buildClassParts (fst (separateClasses cs)) (snd (separateClasses cs)))" and
      rv: "readValue src (getStart i) = Some i"
    unfolding ownOutput_def by blast
  let ?base = "fst (separateClasses cs)" and ?m = "snd (separateClasses cs)"
  let ?groups = "(if ?base = [] then [] else [?base]) @ map snd ?m"
  let ?bodies = "map (join '' '') ?groups"
  let ?X = "newClassName (buildClassParts ?base ?m)"
  let ?p = "getStart i"
  let ?pre = "take ?p src" and ?post = "drop (length ?X) (drop ?p src)"
  have tok: "t \<noteq> [] \<and> (\<forall>x \<in> set t. \<not> isWhiteSpace x \<and> x \<noteq> CHR 0x22 \<and> x \<noteq> CHR 0x5C)"
    if "t \<in> set cs" for t
    using plain that by (auto simp: list_all_iff plainToken_def)
  have parts: "buildClassParts ?base ?m = map (\<lambda>b. [CHR 0x22] @ b @ [CHR 0x22]) ?bodies"
    using buildClassParts_buckets [of cs ?base ?m]
    by (simp add: quoted_def comp_def case_prod_beta)
  have bodies: "\<forall>b \<in> set ?bodies. CHR 0x22 \<notin> set b \<and> CHR 0x5C \<notin> set b
                                   \<and> CHR 0x0A \<notin> set b \<and> CHR 0x0D \<notin> set b"
  proof
    fix b assume "b \<in> set ?bodies"
    then obtain g where g: "g \<in> set ?groups" and b: "b = join '' '' g" by auto
    have sub: "set g \<subseteq> set cs"
      using separateClasses_groups_subset [OF g] by simp
    have q: "\<forall>t \<in> set g. CHR 0x22 \<notin> set t" and bs: "\<forall>t \<in> set g. CHR 0x5C \<notin> set t"
      and lf: "\<forall>t \<in> set g. CHR 0x0A \<notin> set t" and cr: "\<forall>t \<in> set g. CHR 0x0D \<notin> set t"
      using sub tok whitespace_chars by blast+
    show "CHR 0x22 \<notin> set b \<and> CHR 0x5C \<notin> set b \<and> CHR 0x0A \<notin> set b \<and> CHR 0x0D \<notin> set b"
      unfolding b
      using join_no_char [OF q] join_no_char [OF bs] join_no_char [OF lf] join_no_char [OF cr]
      by simp
  qed
  have ne: "?X \<noteq> []" by (rule newClassName_nonempty)
  have "drop ?p src \<noteq> []"
    using at ne by auto
  then have lp: "length ?pre = ?p" by simp
  have "drop ?p src = ?X @ ?post"
    using append_take_drop_id [of "length ?X" "drop ?p src"] at by simp
  then have src: "src = ?pre @ ?X @ ?post"
    using append_take_drop_id [of ?p src] by simp
  from readValue_emitted [OF bodies, of ?X ?pre ?post] parts
  obtain f args s' e' where
      val: "readValue (?pre @ ?X @ ?post) (length ?pre)
              = Some (JsxExpression (Some (CallExpression f [] args s' e'))
                        (length ?pre) (length ?pre + length ?X))" and
      tw: "getText (?pre @ ?X @ ?post) f = ''twJoin''" and
      all: "list_all2 (\<lambda>arg b. \<exists>s e. arg = StringLiteral b s e) args ?bodies"
    by auto
  have i: "i = JsxExpression (Some (CallExpression f [] args s' e')) ?p (?p + length ?X)"
    using val rv unfolding lp src [symmetric] by simp
  have callee: "getText src f = ''twJoin''"
    using tw unfolding src [symmetric] .
  have args: "list_all2 (\<lambda>arg part. \<exists>t s e. arg = StringLiteral t s e \<and> quoted t = part) args
                (buildClassParts ?base ?m)"
    unfolding parts using all by (rule literals_quoted)
  have plain': "\<forall>t \<in> set cs. t \<noteq> [] \<and> (\<forall>c \<in> set t. \<not> isWhiteSpace c)"
    using tok by blast
  have "rewriteNode src off n = Some (Replace (?p + off) (?p + length ?X + off) ?X)" for off
    unfolding n
    by (subst i) (rule regrouped_text [OF plain' m callee args])
  then show ?thesis
    using n ne at by blast
qed

subsection \<open>Applying replacements that carry the text already there\<close>

lemma applyOne_same:
  assumes "a \<le> b"
  shows "applyOne (Replace a b (substring doc a b)) doc = doc"
proof -
  have "take a doc @ take (b - a) (drop a doc) = take (a + (b - a)) doc"
    by (simp only: take_add)
  then have 1: "take a doc @ take (b - a) (drop a doc) = take b doc"
    using assms by simp
  have "applyOne (Replace a b (substring doc a b)) doc
          = (take a doc @ take (b - a) (drop a doc)) @ drop b doc"
    using assms by (simp add: substring_def max_def min_def)
  also have "\<dots> = doc"
    unfolding 1 by (rule append_take_drop_id)
  finally show ?thesis .
qed

lemma foldr_same:
  "\<forall>x \<in> set xs. f x y = y \<Longrightarrow> foldr f xs y = y"
  by (induction xs) auto

lemma applyEdit_same:
  assumes "\<forall>e \<in> set batch. \<exists>a b. a < b \<and> e = Replace a b (substring doc a b)"
  shows "applyEdit doc batch = doc"
proof -
  have "\<forall>e \<in> set (sort_key editStart batch). applyOne e doc = doc"
    using assms applyOne_same by fastforce
  then show ?thesis
    unfolding applyEdit_def by (rule foldr_same)
qed

lemma take_in_selection:
  assumes "take k (drop p (take L ys)) = X" and "length X = k"
  shows "take k (drop p ys) = X"
proof -
  have "take k (take (L - p) (drop p ys)) = X"
    using assms(1) by (simp add: drop_take)
  then have eq: "take (min k (L - p)) (drop p ys) = X"
    by simp
  then have "min k (L - p) = k"
    using assms(2) by (metis length_take min.absorb4 min.cobounded1 min.commute min_def)
  then show ?thesis using eq by simp
qed

lemma length_map_filter:
  "length (List.map_filter f xs) = length (filter (\<lambda>x. f x \<noteq> None) xs)"
  by (simp add: List.map_filter_def)

subsection \<open>The command run on its own output\<close>

text \<open>
  Claim C1, as the code has it. Take a document that holds the import line and in which
  every class attribute the command would rewrite is the command's own output
  (\<open>ownOutput\<close>): the text the rewriter emits for some list of tokens that are not empty
  and hold no white space, no double quote and no backslash stands at the attribute's
  value, and the tree has there what that text reads back as, a braced call of
  \<open>twJoin\<close> with one string literal per group. Then the command hands the host one batch
  which has one replacement for each such attribute, so the batch is empty only if
  there is no such attribute, and no import insertion. Every replacement covers a
  non-empty span and carries the text that is already in the document at that span, so
  applying the batch leaves the document as it is. The statement covers a run on a
  selection too: the offsets are those of the document.
\<close>

theorem second_pass_same_text:
  assumes parsed: "createSourceFile (fst (selectSource ed)) = Inr sourceFile"
      and sel: "selStart ed \<le> selEnd ed"
      and imp: "\<exists>pre suf. docText ed = pre @ importStatement @ suf"
      and own: "\<forall>n \<in> set (findClassNames (fst (selectSource ed)) sourceFile).
                  rewriteNode (fst (selectSource ed)) (snd (selectSource ed)) n = None
                  \<or> ownOutput (fst (selectSource ed)) n"
  shows "\<exists>batch.
           extractTailwindClasses createSourceFile (Some ed) = \<lparr>applied = [batch], shown = []\<rparr>
         \<and> length batch = length (filter (ownOutput (fst (selectSource ed)))
                                     (findClassNames (fst (selectSource ed)) sourceFile))
         \<and> (\<forall>e \<in> set batch. \<exists>a b. a < b \<and> e = Replace a b (substring (docText ed) a b))
         \<and> applyEdit (docText ed) batch = docText ed"
proof -
  let ?src = "fst (selectSource ed)" and ?off = "snd (selectSource ed)"
  let ?nodes = "findClassNames ?src sourceFile"
  let ?batch = "List.map_filter (rewriteNode ?src ?off) ?nodes"
  have inc: "includesStr (docText ed) importStatement"
    using imp by (simp add: includesStr_iff)
  have run: "extractTailwindClasses createSourceFile (Some ed) = \<lparr>applied = [?batch], shown = []\<rparr>"
    unfolding extract_parsed [where createSourceFile = createSourceFile and ed = ed
        and sourceFile = sourceFile, OF parsed] collectEdits_eq using inc by simp
  have iff: "rewriteNode ?src ?off n \<noteq> None \<longleftrightarrow> ownOutput ?src n" if "n \<in> set ?nodes" for n
  proof
    assume "rewriteNode ?src ?off n \<noteq> None"
    then show "ownOutput ?src n" using bspec [OF own that] by auto
  next
    assume "ownOutput ?src n"
    then show "rewriteNode ?src ?off n \<noteq> None"
      using ownOutput_rewritten [of ?src n] by auto
  qed
  have len: "length ?batch = length (filter (ownOutput ?src) ?nodes)"
    unfolding length_map_filter
  proof (rule arg_cong [where f = length], rule filter_cong)
    show "?nodes = ?nodes" ..
  next
    fix x assume "x \<in> set ?nodes"
    then show "(rewriteNode ?src ?off x \<noteq> None) = ownOutput ?src x" by (rule iff)
  qed
  have there: "take k (drop (p + ?off) (docText ed)) = X"
    if "take k (drop p ?src) = X" and "length X = k" for k p X
  proof (cases "selStart ed = selEnd ed")
    case True
    then show ?thesis using that by (simp add: selectSource_def)
  next
    case False
    then have src: "?src = take (selEnd ed - selStart ed) (drop (selStart ed) (docText ed))"
      and off: "?off = selStart ed"
      using sel by (simp_all add: selectSource_def substring_def max_def min_def)
    have "take k (drop p (drop (selStart ed) (docText ed))) = X"
      using that unfolding src by (rule take_in_selection)
    then show ?thesis unfolding off by (simp add: add.commute)
  qed
  have same: "\<forall>e \<in> set ?batch. \<exists>a b. a < b \<and> e = Replace a b (substring (docText ed) a b)"
  proof
    fix e assume "e \<in> set ?batch"
    then obtain n where n: "n \<in> set ?nodes" and e: "rewriteNode ?src ?off n = Some e"
      by (auto simp: mem_map_filter)
    then have "ownOutput ?src n" using iff by auto
    from ownOutput_rewritten [OF this] obtain nm i s' e' X where
        X: "X \<noteq> []" and at: "take (length X) (drop (getStart i) ?src) = X" and
        re: "rewriteNode ?src ?off n
               = Some (Replace (getStart i + ?off) (getStart i + length X + ?off) X)"
      by blast
    let ?a = "getStart i + ?off" and ?b = "getStart i + length X + ?off"
    have lt: "?a < ?b" using X by simp
    have "take (length X) (drop ?a (docText ed)) = X"
      using at by (rule there) simp
    moreover have "?b - ?a = length X" by simp
    ultimately have "substring (docText ed) ?a ?b = X"
      using lt by (simp add: substring_def max_def min_def)
    then have "e = Replace ?a ?b (substring (docText ed) ?a ?b)"
      using e re by simp
    then show "\<exists>a b. a < b \<and> e = Replace a b (substring (docText ed) a b)"
      using lt by blast
  qed
  have "applyEdit (docText ed) ?batch = docText ed"
    using same by (rule applyEdit_same)
  then show ?thesis
    using run len same by blast
qed

text \<open>
  Claim C1 as stated says that the second pass produces an empty batch. On \<open>page1\<close> the
  first pass yields \<open>page2\<close>, and the pass over \<open>page2\<close> hands the host a batch with one
  replacement.
\<close>

theorem second_pass_counterexample:
  "applyEdit page1 (concat (applied (extractTailwindClasses pageParser
                      (Some \<lparr>docText = page1, selStart = 0, selEnd = 0\<rparr>)))) = page2
   \<and> applied (extractTailwindClasses pageParser (Some \<lparr>docText = page2, selStart = 0, selEnd = 0\<rparr>))
       = [[Replace 56 121 (newClassName [quoted ''mobile:hidden'', quoted ''desktop:flex''])]]
   \<and> concat (applied (extractTailwindClasses pageParser
                (Some \<lparr>docText = page2, selStart = 0, selEnd = 0\<rparr>))) \<noteq> []"
proof -
  have 1: "applyEdit page1 (concat (applied (extractTailwindClasses pageParser
                      (Some \<lparr>docText = page1, selStart = 0, selEnd = 0\<rparr>)))) = page2"
    by code_simp
  have 2: "applied (extractTailwindClasses pageParser (Some \<lparr>docText = page2, selStart = 0, selEnd = 0\<rparr>))
       = [[Replace 56 121 (newClassName [quoted ''mobile:hidden'', quoted ''desktop:flex''])]]"
    by code_simp
  show ?thesis
    unfolding 2 using 1 by simp
qed

theorem second_pass_same_text_witness:
  "ownOutput page2
     (JsxAttribute (46, 55)
        (Some (JsxExpression
           (Some (CallExpression (OtherNode [] 57 63) []
                    [StringLiteral ''mobile:hidden'' 73 88, StringLiteral ''desktop:flex'' 98 112]
                    57 120))
           56 121))
        46 121)
   \<and> readValue page2 56
       = Some (JsxExpression
           (Some (CallExpression (OtherNode [] 57 63) []
                    [StringLiteral ''mobile:hidden'' 73 88, StringLiteral ''desktop:flex'' 98 112]
                    57 120))
           56 121)
   \<and> extractTailwindClasses pageParser (Some \<lparr>docText = page2, selStart = 0, selEnd = 0\<rparr>)
       = \<lparr>applied = [[Replace 56 121 (substring page2 56 121)]], shown = []\<rparr>
   \<and> substring page2 56 121 = newClassName [quoted ''mobile:hidden'', quoted ''desktop:flex'']
   \<and> applyEdit page2 [Replace 56 121 (substring page2 56 121)] = page2"
proof -
  let ?cs = "[''mobile:hidden'', ''desktop:flex'']"
  let ?i = "JsxExpression
           (Some (CallExpression (OtherNode [] 57 63) []
                    [StringLiteral ''mobile:hidden'' 73 88, StringLiteral ''desktop:flex'' 98 112]
                    57 120))
           56 121"
  let ?n = "JsxAttribute (46, 55) (Some ?i) 46 121"
  let ?ed = "\<lparr>docText = page2, selStart = 0, selEnd = 0\<rparr>"
  have plain: "list_all plainToken ?cs"
    by code_simp
  have m: "snd (separateClasses ?cs) \<noteq> []"
    by code_simp
  have at: "take (length (newClassName (buildClassParts (fst (separateClasses ?cs))
                                                          (snd (separateClasses ?cs)))))
              (drop 56 page2)
            = newClassName (buildClassParts (fst (separateClasses ?cs)) (snd (separateClasses ?cs)))"
    by code_simp
  have rv: "readValue page2 56 = Some ?i"
    by code_simp
  have st: "getStart ?i = 56" by simp
  have o: "ownOutput page2 ?n"
    unfolding ownOutput_def
    by (rule exI [of _ "(46, 55)"], rule exI [of _ ?i], rule exI [of _ 46], rule exI [of _ 121],
        rule exI [of _ ?cs])
       (simp only: st plain m at rv simp_thms)
  have src: "selectSource ?ed = (page2, 0)"
    by (simp add: selectSource_def)
  have parsed: "pageParser (fst (selectSource ?ed)) = Inr page2Tree"
    unfolding src by code_simp
  have sel: "selStart ?ed \<le> selEnd ?ed" by simp
  have "includesStr page2 importStatement" by code_simp
  then have imp: "\<exists>pre suf. docText ?ed = pre @ importStatement @ suf"
    by (simp add: includesStr_iff)
  have nodes: "findClassNames page2 page2Tree = [?n]"
    by code_simp
  have own: "\<forall>n \<in> set (findClassNames (fst (selectSource ?ed)) page2Tree).
               rewriteNode (fst (selectSource ?ed)) (snd (selectSource ?ed)) n = None
               \<or> ownOutput (fst (selectSource ?ed)) n"
    unfolding src using o by (simp add: nodes)
  have run: "extractTailwindClasses pageParser (Some ?ed)
               = \<lparr>applied = [[Replace 56 121 (substring page2 56 121)]], shown = []\<rparr>"
    by code_simp
  have new: "substring page2 56 121 = newClassName [quoted ''mobile:hidden'', quoted ''desktop:flex'']"
    by code_simp
  from second_pass_same_text [where createSourceFile = pageParser and ed = ?ed
      and sourceFile = page2Tree, OF parsed sel imp own] obtain batch where
      b: "extractTailwindClasses pageParser (Some ?ed) = \<lparr>applied = [batch], shown = []\<rparr>" and
      same: "applyEdit (docText ?ed) batch = docText ?ed"
    by blast
  have "batch = [Replace 56 121 (substring page2 56 121)]"
    using b unfolding run by simp
  then have "applyEdit page2 [Replace 56 121 (substring page2 56 121)] = page2"
    using same by simp
  then show ?thesis
    using o rv run new by (intro conjI) assumption+
qed

section \<open>Replacement spans do not overlap\<close>


















end
